theory Spec2Isabelle
  imports Main
begin

section \<open>The radix tree of the router (tree.go)\<close>

text \<open>
  The tree stores \<^verbatim>\<open>*Route\<close> pointers and never looks inside them, so the route is a
  type parameter \<open>'r\<close> and a nullable pointer is \<open>'r option\<close>. Strings are byte lists.
  Every node is owned by exactly one parent (a fresh node is linked in once, a split moves
  the old child under the new intermediate node), so a node is modelled by its value, and a
  method that mutates its receiver returns the receiver's new state. The tree objects
  themselves live in a store, where the update in place is visible.
\<close>

subsection \<open>Data model\<close>

datatype nodeType = static | param | wildcard

datatype 'r node = Node
  (nType: nodeType)
  (label: char)
  (prefix: string)
  (paramKey: string)
  (route: "'r option")
  (children: "'r node list")
  (paramChild: "'r node option")

datatype 'r tree = Tree (root: "'r node")

text \<open>The run-time panics: \<^verbatim>\<open>segment[0]\<close> on an empty segment in the insertion, and a method
  called through a nil \<^verbatim>\<open>*tree\<close>.\<close>

datatype error = IndexOutOfRange | NilDereference

type_synonym params = "(string \<rightharpoonup> string) option"

text \<open>Field assignments \<^verbatim>\<open>n.route = r\<close>, \<^verbatim>\<open>n.children = cs\<close>, \<^verbatim>\<open>n.paramChild = c\<close>,
  and the pair \<^verbatim>\<open>child.prefix = p; child.label = l\<close> of the split.\<close>

fun set_route :: "'r node \<Rightarrow> 'r option \<Rightarrow> 'r node" where
  "set_route (Node t l p k _ cs pc) r = Node t l p k r cs pc"

fun set_children :: "'r node \<Rightarrow> 'r node list \<Rightarrow> 'r node" where
  "set_children (Node t l p k r _ pc) cs = Node t l p k r cs pc"

fun set_paramChild :: "'r node \<Rightarrow> 'r node option \<Rightarrow> 'r node" where
  "set_paramChild (Node t l p k r cs _) pc = Node t l p k r cs pc"

fun set_prefix :: "'r node \<Rightarrow> string \<Rightarrow> char \<Rightarrow> 'r node" where
  "set_prefix (Node t _ _ k r cs pc) p l = Node t l p k r cs pc"

text \<open>The zero value of a \<^verbatim>\<open>byte\<close> field that a composite literal leaves out.\<close>

definition zeroByte :: char where
  "zeroByte = CHR 0x00"

subsection \<open>String helpers of the Go library, as the code uses them\<close>

definition HasPrefix :: "string \<Rightarrow> string \<Rightarrow> bool" where
  "HasPrefix s p = (length p \<le> length s \<and> take (length p) s = p)"

definition TrimPrefix :: "string \<Rightarrow> string \<Rightarrow> string" where
  "TrimPrefix s p = (if HasPrefix s p then drop (length p) s else s)"

text \<open>\<^verbatim>\<open>strings.IndexByte\<close>: the index of the first occurrence, or \<open>-1\<close>.\<close>

definition IndexByte :: "string \<Rightarrow> char \<Rightarrow> int" where
  "IndexByte s c =
     (if c \<in> set s then int (length (takeWhile (\<lambda>x. x \<noteq> c) s)) else - 1)"

text \<open>The block of both \<^verbatim>\<open>insert\<close> and \<^verbatim>\<open>search\<close> that cuts the next segment off
  the path: \<^verbatim>\<open>segment = path[:segmentEnd]\<close>, \<^verbatim>\<open>remaining = path[segmentEnd:]\<close>.\<close>

definition nextSegment :: "string \<Rightarrow> string \<times> string" where
  "nextSegment path =
     (let segmentEnd = IndexByte path (CHR ''/'')
      in if segmentEnd = - 1 then (path, [])
         else (take (nat segmentEnd) path, drop (nat segmentEnd) path))"

subsection \<open>longestCommonPrefix\<close>

function lcpLoop :: "string \<Rightarrow> string \<Rightarrow> nat \<Rightarrow> nat \<Rightarrow> nat" where
  "lcpLoop a b i mx =
     (if i < mx then (if a ! i \<noteq> b ! i then i else lcpLoop a b (i + 1) mx) else mx)"
  by pat_completeness auto
termination
  by (relation "measure (\<lambda>(a, b, i, mx). mx - i)") auto

declare lcpLoop.simps [simp del]

definition longestCommonPrefix :: "string \<Rightarrow> string \<Rightarrow> nat" where
  "longestCommonPrefix a b =
     (let mx = length a;
          mx = (if length b < mx then length b else mx)
      in lcpLoop a b 0 mx)"

subsection \<open>node.insert\<close>

text \<open>
  The loop over \<^verbatim>\<open>n.children\<close> skips a child that is not static or has no common prefix
  with the segment, and its body returns for the first child it does not skip. So the loop is
  the search for the index of that child, and the body runs once on it.
\<close>

fun findOverlap :: "string \<Rightarrow> 'r node list \<Rightarrow> nat option" where
  "findOverlap segment [] = None"
| "findOverlap segment (child # cs) =
     (if nType child \<noteq> static then map_option Suc (findOverlap segment cs)
      else if longestCommonPrefix segment (prefix child) = 0
        then map_option Suc (findOverlap segment cs)
      else Some 0)"

text \<open>The split: a new parent with the common prefix, the old child below it with the
  rest of its prefix. The code reaches it only with a common length below the length of the
  child's prefix, so the rest is not empty and \<^verbatim>\<open>child.prefix[0]\<close> is in range.\<close>

definition splitChild :: "'r node \<Rightarrow> nat \<Rightarrow> 'r node" where
  "splitChild child commonLen =
     (let rest = drop commonLen (prefix child)
      in Node static (label child) (take commonLen (prefix child)) [] None
           [set_prefix child rest (hd rest)] None)"

text \<open>
  The insertion proper follows. It assigns to the fields of its receiver and of the nodes
  below it; the model returns the receiver after these assignments. The panic on an empty
  static segment ends the run: the model returns the error and no node. The recursion is
  on the path, which gets shorter with every call; the facts that show it come first.
\<close>

lemma nextSegment_eq:
  "nextSegment path =
     (takeWhile (\<lambda>x. x \<noteq> CHR ''/'') path, dropWhile (\<lambda>x. x \<noteq> CHR ''/'') path)"
proof (cases "CHR ''/'' \<in> set path")
  case True
  then show ?thesis
    using takeWhile_eq_take[of "\<lambda>x. x \<noteq> CHR ''/''" path]
      dropWhile_eq_drop[of "\<lambda>x. x \<noteq> CHR ''/''" path]
    by (simp add: nextSegment_def IndexByte_def Let_def)
next
  case False
  then have all: "\<forall>x\<in>set path. x \<noteq> CHR ''/''" by auto
  have t: "takeWhile (\<lambda>x. x \<noteq> CHR ''/'') path = path"
    using all by (simp add: takeWhile_eq_all_conv)
  have d: "dropWhile (\<lambda>x. x \<noteq> CHR ''/'') path = []"
    using all by (simp add: dropWhile_eq_Nil_conv)
  have "nextSegment path = (path, [])"
    using False by (simp add: nextSegment_def IndexByte_def)
  then show ?thesis by (simp only: t d)
qed

lemma nextSegment_append: "nextSegment path = (s, rm) \<Longrightarrow> path = s @ rm"
  by (auto simp: nextSegment_eq)

lemma nextSegment_remaining:
  "nextSegment path = (s, rm) \<Longrightarrow> rm \<noteq> [] \<Longrightarrow> hd rm = CHR ''/''"
  using hd_dropWhile[of "\<lambda>x. x \<noteq> CHR ''/''" path] by (auto simp: nextSegment_eq)

lemma nextSegment_segment: "nextSegment path = (s, rm) \<Longrightarrow> CHR ''/'' \<notin> set s"
  by (auto simp: nextSegment_eq dest: set_takeWhileD)

lemma lcpLoop_le: "i \<le> mx \<Longrightarrow> lcpLoop a b i mx \<le> mx"
  by (induction a b i mx rule: lcpLoop.induct) (subst lcpLoop.simps, auto)

lemma lcp_le1: "longestCommonPrefix a b \<le> length a"
  using lcpLoop_le[of 0 "min (length a) (length b)" a b]
  by (auto simp: longestCommonPrefix_def Let_def min_def split: if_splits)

lemma lcp_le2: "longestCommonPrefix a b \<le> length b"
  using lcpLoop_le[of 0 "min (length a) (length b)" a b]
  by (auto simp: longestCommonPrefix_def Let_def min_def split: if_splits)

lemma findOverlap_Some:
  "findOverlap seg cs = Some i \<Longrightarrow>
     i < length cs \<and> nType (cs ! i) = static \<and>
     longestCommonPrefix seg (prefix (cs ! i)) \<noteq> 0"
  by (induction cs arbitrary: i) (auto split: if_splits)

lemma TrimPrefix_slash: "TrimPrefix (CHR ''/'' # s) ''/'' = s"
  by (simp add: TrimPrefix_def HasPrefix_def)

lemma remaining_decreases:
  assumes "(s, rm) = nextSegment p" "rm \<noteq> []"
  shows "length (TrimPrefix rm ''/'') < length p"
proof -
  from assms have p: "p = s @ rm" and h: "hd rm = CHR ''/''"
    using nextSegment_append[of p s rm] nextSegment_remaining[of p s rm] by simp_all
  from assms(2) h obtain t where "rm = CHR ''/'' # t" by (cases rm) auto
  then show ?thesis using p by (simp add: TrimPrefix_slash)
qed

lemma overlap_decreases:
  assumes "(s, rm) = nextSegment p" "findOverlap s cs = Some i"
  shows "length (TrimPrefix (''/'' @ drop (longestCommonPrefix s (prefix (cs ! i))) s @ rm) ''/'')
           < length p"
proof -
  from assms(1) have p: "p = s @ rm" using nextSegment_append[of p s rm] by simp
  have "longestCommonPrefix s (prefix (cs ! i)) \<noteq> 0"
    using findOverlap_Some[OF assms(2)] by simp
  moreover have "longestCommonPrefix s (prefix (cs ! i)) \<le> length s" by (rule lcp_le1)
  ultimately show ?thesis using p by (simp add: TrimPrefix_slash)
qed

function node_insert :: "'r node \<Rightarrow> string \<Rightarrow> 'r option \<Rightarrow> error + 'r node" where
  "node_insert n path r =
    (if path = ''/'' then Inr (set_route n r)
     else
      (case nextSegment (TrimPrefix path ''/'') of (segment, remaining) \<Rightarrow>
        if segment \<noteq> [] \<and> hd segment = CHR '':'' then
          (let pc = (case paramChild n of
                       None \<Rightarrow> Node param zeroByte segment (tl segment) None [] None
                     | Some c \<Rightarrow> c)
           in if remaining = [] then Inr (set_paramChild n (Some (set_route pc r)))
              else (case node_insert pc remaining r of
                      Inl e \<Rightarrow> Inl e
                    | Inr pc' \<Rightarrow> Inr (set_paramChild n (Some pc'))))
        else
          (case findOverlap segment (children n) of
             Some i \<Rightarrow>
               (let child = children n ! i;
                    commonLen = longestCommonPrefix segment (prefix child)
                in if commonLen = length (prefix child) then
                     (if commonLen = length segment then
                        (if remaining = [] then
                           Inr (set_children n ((children n)[i := set_route child r]))
                         else (case node_insert child remaining r of
                                 Inl e \<Rightarrow> Inl e
                               | Inr c' \<Rightarrow> Inr (set_children n ((children n)[i := c']))))
                      else
                        (case node_insert child
                                (''/'' @ drop commonLen segment @ remaining) r of
                           Inl e \<Rightarrow> Inl e
                         | Inr c' \<Rightarrow> Inr (set_children n ((children n)[i := c']))))
                   else
                     (let splitNode = splitChild child commonLen
                      in if commonLen = length segment then
                           (if remaining = [] then
                              Inr (set_children n
                                    ((children n)[i := set_route splitNode r]))
                            else (case node_insert splitNode remaining r of
                                    Inl e \<Rightarrow> Inl e
                                  | Inr s' \<Rightarrow>
                                      Inr (set_children n ((children n)[i := s']))))
                         else
                           (case node_insert splitNode
                                   (''/'' @ drop commonLen segment @ remaining) r of
                              Inl e \<Rightarrow> Inl e
                            | Inr s' \<Rightarrow> Inr (set_children n ((children n)[i := s'])))))
           | None \<Rightarrow>
               (case segment of
                  [] \<Rightarrow> Inl IndexOutOfRange
                | c # _ \<Rightarrow>
                    (let newChild = Node static c segment [] None [] None
                     in if remaining = [] then
                          Inr (set_children n (children n @ [set_route newChild r]))
                        else (case node_insert newChild remaining r of
                                Inl e \<Rightarrow> Inl e
                              | Inr c' \<Rightarrow> Inr (set_children n (children n @ [c']))))))))"
  by pat_completeness auto
termination
proof (relation "measure (\<lambda>(n, path, r). length (TrimPrefix path ''/''))", goal_cases)
  case 1 show ?case by simp
next
  case 2 then show ?case using remaining_decreases by simp
next
  case 3 then show ?case using remaining_decreases by simp
next
  case 4 then show ?case using remaining_decreases by simp
next
  case 5 then show ?case using overlap_decreases by simp
next
  case 6 then show ?case using remaining_decreases by simp
next
  case 7 then show ?case using overlap_decreases by simp
qed

declare node_insert.simps [simp del]

subsection \<open>node.search\<close>

text \<open>
  The loop over \<^verbatim>\<open>n.children\<close> returns in its body for the first static child whose
  prefix starts the segment and is as long as the segment or shorter; it skips every other
  child. Again the loop is the search for that child's index.
\<close>

fun findMatch :: "string \<Rightarrow> 'r node list \<Rightarrow> nat option" where
  "findMatch segment [] = None"
| "findMatch segment (child # cs) =
     (if nType child \<noteq> static then map_option Suc (findMatch segment cs)
      else if HasPrefix segment (prefix child) \<and>
              (length segment = length (prefix child) \<or>
               length segment > length (prefix child))
        then Some 0
      else map_option Suc (findMatch segment cs))"

lemma findMatch_Some:
  "findMatch seg cs = Some i \<Longrightarrow>
     i < length cs \<and> nType (cs ! i) = static \<and> HasPrefix seg (prefix (cs ! i))"
  by (induction cs arbitrary: i) (auto split: if_splits)

lemma size_child: "i < length (children n) \<Longrightarrow> size (children n ! i) < size n"
proof (cases n)
  case (Node t l p k r cs pc)
  assume "i < length (children n)"
  then have "cs ! i \<in> set cs" using Node by simp
  then have "size (cs ! i) \<le> size_list size cs" by (simp add: size_list_estimation')
  then show ?thesis using Node by simp
qed

lemma size_paramChild: "paramChild n = Some pc \<Longrightarrow> size pc < size n"
  by (cases n) simp

text \<open>
  \<^verbatim>\<open>params\<close> points to the caller's map variable, which is nil until the first
  parameter is bound; the function returns the route and the variable's final value.
\<close>

function node_search :: "'r node \<Rightarrow> string \<Rightarrow> params \<Rightarrow> 'r option \<times> params" where
  "node_search n path ps =
    (if path = ''/'' \<or> path = [] then (route n, ps)
     else
      (case nextSegment (TrimPrefix path ''/'') of (segment, remaining) \<Rightarrow>
        (case findMatch segment (children n) of
           Some i \<Rightarrow>
             (let child = children n ! i
              in if length segment = length (prefix child) then
                   (if remaining = [] then (route child, ps)
                    else node_search child remaining ps)
                 else node_search child
                        (''/'' @ drop (length (prefix child)) segment @ remaining) ps)
         | None \<Rightarrow>
             (case paramChild n of
                Some pc \<Rightarrow>
                  (let ps' = Some ((case ps of None \<Rightarrow> Map.empty | Some m \<Rightarrow> m)
                                     (paramKey pc \<mapsto> segment))
                   in if remaining = [] then (route pc, ps')
                      else node_search pc remaining ps')
              | None \<Rightarrow> (None, ps)))))"
  by pat_completeness auto
termination
proof (relation "measure (\<lambda>(n, path, ps). size n)", goal_cases)
  case 1 show ?case by simp
next
  case 2 then show ?case using size_paramChild by fastforce
next
  case 3 then show ?case using findMatch_Some size_child by fastforce
next
  case 4 then show ?case using findMatch_Some size_child by fastforce
qed

declare node_search.simps [simp del]

subsection \<open>newTree, tree.insert, tree.search\<close>

definition newTree :: "'r tree" where
  "newTree = Tree (Node static zeroByte [] [] None [] None)"

text \<open>\<^verbatim>\<open>tree.insert\<close> has no result: it updates the tree it is called on. The model
  returns that tree's state after the call, or the panic.\<close>

definition tree_insert :: "'r tree \<Rightarrow> string \<Rightarrow> 'r option \<Rightarrow> error + 'r tree" where
  "tree_insert t path r =
     (let path = (if path = [] then ''/'' else path);
          path = (if hd path \<noteq> CHR ''/'' then ''/'' @ path else path)
      in case node_insert (root t) path r of
           Inl e \<Rightarrow> Inl e
         | Inr n \<Rightarrow> Inr (Tree n))"

definition tree_search :: "'r tree \<Rightarrow> string \<Rightarrow> 'r option \<times> params" where
  "tree_search t path =
     (let path = (if path = [] then ''/'' else path)
      in case node_search (root t) path None of
           (None, ps) \<Rightarrow> (None, None)
         | (Some r, ps) \<Rightarrow> (Some r, ps))"

text \<open>
  A \<^verbatim>\<open>*tree\<close> is a reference to a tree object. The store maps the references to the
  objects' states; \<^verbatim>\<open>t.insert(path, route)\<close> replaces the state of the object \<open>t\<close> refers
  to and allocates no tree, \<^verbatim>\<open>t.search(path)\<close> reads it.
\<close>

type_synonym 'r store = "nat \<rightharpoonup> 'r tree"

definition insert_at :: "'r store \<Rightarrow> nat \<Rightarrow> string \<Rightarrow> 'r option \<Rightarrow> error + 'r store" where
  "insert_at h t path r =
     (case h t of
        None \<Rightarrow> Inl NilDereference
      | Some T \<Rightarrow>
          (case tree_insert T path r of
             Inl e \<Rightarrow> Inl e
           | Inr T' \<Rightarrow> Inr (h(t \<mapsto> T'))))"

definition search_at :: "'r store \<Rightarrow> nat \<Rightarrow> string \<Rightarrow> error + ('r option \<times> params)" where
  "search_at h t path =
     (case h t of
        None \<Rightarrow> Inl NilDereference
      | Some T \<Rightarrow> Inr (tree_search T path))"

text \<open>A run of registrations on one tree, stopping at the first panic.\<close>

fun inserts :: "'r tree \<Rightarrow> (string \<times> 'r option) list \<Rightarrow> error + 'r tree" where
  "inserts t [] = Inr t"
| "inserts t ((p, r) # xs) =
     (case tree_insert t p r of Inl e \<Rightarrow> Inl e | Inr t' \<Rightarrow> inserts t' xs)"

section \<open>Middleware chain (middleware.go)\<close>

text \<open>A middleware maps a handler to a handler; \<^verbatim>\<open>Chain\<close> applies the list from its last
  element down to its first, the loop counter being a signed \<^verbatim>\<open>int\<close>.\<close>

type_synonym 'h MiddlewareFunc = "'h \<Rightarrow> 'h"

function chainLoop :: "'h MiddlewareFunc list \<Rightarrow> int \<Rightarrow> 'h \<Rightarrow> 'h" where
  "chainLoop middlewares i handler =
     (if i \<ge> 0 then chainLoop middlewares (i - 1) ((middlewares ! nat i) handler)
      else handler)"
  by pat_completeness auto
termination
  by (relation "measure (\<lambda>(ms, i, h). nat (i + 1))") auto

declare chainLoop.simps [simp del]

definition Chain :: "'h MiddlewareFunc list \<Rightarrow> 'h MiddlewareFunc" where
  "Chain middlewares = (\<lambda>handler. chainLoop middlewares (int (length middlewares) - 1) handler)"

section \<open>Recovery middleware (middleware/recovery.go)\<close>

datatype APIError = APIError (Code: string) (Message: string)

definition NewAPIError :: "string \<Rightarrow> string \<Rightarrow> APIError" where
  "NewAPIError code message = APIError code message"

text \<open>An \<^verbatim>\<open>error\<close> value is a pointer to an \<^verbatim>\<open>APIError\<close> or some other error; a call of a
  handler returns its triple or panics with a value.\<close>

datatype 'e error_value = APIErrorPtr APIError | OtherError 'e

type_synonym ('d, 'e) result = "'d option \<times> int \<times> 'e error_value option"

datatype ('a, 'p) outcome = Returns 'a | Panics 'p

type_synonym ('c, 'd, 'e, 'p) Handler = "'c \<Rightarrow> (('d, 'e) result, 'p) outcome"

text \<open>The frame of the wrapping function: its three named results and the panic in
  flight, if any.\<close>

record ('d, 'e, 'p) frame =
  data :: "'d option"
  statusCode :: int
  err :: "'e error_value option"
  panicking :: "'p option"

definition StatusInternalServerError :: int where
  "StatusInternalServerError = 500"

text \<open>\<^verbatim>\<open>recover()\<close> in a deferred call: yields the panic value and stops the panic.\<close>

definition recover :: "('d, 'e, 'p) frame \<Rightarrow> 'p option \<times> ('d, 'e, 'p) frame" where
  "recover f = (panicking f, f\<lparr>panicking := None\<rparr>)"

definition recovery_deferred :: "('d, 'e, 'p) frame \<Rightarrow> ('d, 'e, 'p) frame" where
  "recovery_deferred f =
     (case recover f of (r, f') \<Rightarrow>
        if r \<noteq> None then
          f'\<lparr>data := None,
             statusCode := StatusInternalServerError,
             err := Some (APIErrorPtr
                      (NewAPIError ''internal_server_error'' ''An unexpected error occurred''))\<rparr>
        else f')"

definition Recovery :: "('c, 'd, 'e, 'p) Handler \<Rightarrow> ('c, 'd, 'e, 'p) Handler" where
  "Recovery next = (\<lambda>ctx.
     let f0 = \<lparr>data = None, statusCode = 0, err = None, panicking = None\<rparr>;
         f1 = (case next ctx of
                 Returns (d, s, e) \<Rightarrow> f0\<lparr>data := d, statusCode := s, err := e\<rparr>
               | Panics v \<Rightarrow> f0\<lparr>panicking := Some v\<rparr>);
         f2 = recovery_deferred f1
     in case panicking f2 of
          None \<Rightarrow> Returns (data f2, statusCode f2, err f2)
        | Some v \<Rightarrow> Panics v)"

section \<open>Notions used in the properties\<close>

text \<open>The parameter child of a node after the guarded creation
  \<^verbatim>\<open>if n.paramChild == nil { n.paramChild = &node{...} }\<close> for a segment.\<close>

definition paramSlot :: "'r node \<Rightarrow> string \<Rightarrow> 'r node" where
  "paramSlot n segment =
     (case paramChild n of
        None \<Rightarrow> Node param zeroByte segment (tl segment) None [] None
      | Some c \<Rightarrow> c)"

text \<open>The lazy allocation and the assignment \<^verbatim>\<open>(*params)[key] = segment\<close> of the search.\<close>

definition bind_param :: "params \<Rightarrow> string \<Rightarrow> string \<Rightarrow> params" where
  "bind_param ps k v = Some ((case ps of None \<Rightarrow> Map.empty | Some m \<Rightarrow> m)(k \<mapsto> v))"

text \<open>The path that \<^verbatim>\<open>tree.insert\<close> hands to the root: the empty path becomes \<^verbatim>\<open>/\<close>, a
  missing leading slash is added.\<close>

definition normPath :: "string \<Rightarrow> string" where
  "normPath p =
     (let path = (if p = [] then ''/'' else p)
      in if hd path \<noteq> CHR ''/'' then ''/'' @ path else path)"

text \<open>
  Sibling first-byte disjointness, at every node of a tree: every child in the list is
  static and has a non-empty prefix, and the first bytes of the children's prefixes are
  pairwise distinct; the same below every child and below the parameter child.
\<close>

fun sibling_disjoint :: "'r node \<Rightarrow> bool" where
  "sibling_disjoint (Node t l p k r cs pc) =
     (distinct (map (\<lambda>c. hd (prefix c)) cs) \<and>
      (\<forall>c\<in>set cs. nType c = static \<and> prefix c \<noteq> [] \<and> sibling_disjoint c) \<and>
      (case pc of None \<Rightarrow> True | Some c \<Rightarrow> sibling_disjoint c))"

text \<open>
  A pattern in which a colon occurs only as the first byte of a segment (right after a
  slash, or at the very start), and a tree whose static prefixes are non-empty and free of
  colons: the trees that such patterns build.
\<close>

fun colons_after :: "char \<Rightarrow> string \<Rightarrow> bool" where
  "colons_after prev [] = True"
| "colons_after prev (c # cs) = ((c = CHR '':'' \<longrightarrow> prev = CHR ''/'') \<and> colons_after c cs)"

definition colons_lead :: "string \<Rightarrow> bool" where
  "colons_lead p = colons_after (CHR ''/'') p"

fun plain_prefixes :: "'r node \<Rightarrow> bool" where
  "plain_prefixes (Node t l p k r cs pc) =
     ((\<forall>c\<in>set cs. prefix c \<noteq> [] \<and> CHR '':'' \<notin> set (prefix c) \<and> plain_prefixes c) \<and>
      (case pc of None \<Rightarrow> True | Some c \<Rightarrow> plain_prefixes c))"

text \<open>
  The routes stored in a subtree, and the routes stored at or below some parameter child
  of it: the routes a search can only reach by binding a parameter.
\<close>

fun node_routes :: "'r node \<Rightarrow> 'r set" where
  "node_routes (Node t l p k r cs pc) =
     set_option r \<union> (\<Union>c\<in>set cs. node_routes c) \<union>
     (case pc of None \<Rightarrow> {} | Some c \<Rightarrow> node_routes c)"

fun param_routes :: "'r node \<Rightarrow> 'r set" where
  "param_routes (Node t l p k r cs pc) =
     (\<Union>c\<in>set cs. param_routes c) \<union> (case pc of None \<Rightarrow> {} | Some c \<Rightarrow> node_routes c)"

text \<open>The route of a registration whose path contains a colon, as a set.\<close>

definition colon_routes :: "string \<Rightarrow> 'r option \<Rightarrow> 'r set" where
  "colon_routes path r = (if CHR '':'' \<in> set path then set_option r else {})"

text \<open>
  The path a node hands to the child it goes down into, in \<^verbatim>\<open>insert\<close> and in
  \<^verbatim>\<open>search\<close> alike. After a whole segment it is the remaining path; where nothing
  remains the code reads or writes the child's route directly, which is what the child
  does with the path \<^verbatim>\<open>/\<close>. After the first \<open>k\<close> bytes of a longer segment it is
  \<^verbatim>\<open>"/" + segment[k:] + remaining\<close>.
\<close>

definition restPath :: "string \<Rightarrow> string" where
  "restPath remaining = (if remaining = [] then ''/'' else remaining)"

definition descend :: "string \<Rightarrow> string \<Rightarrow> nat \<Rightarrow> string" where
  "descend segment remaining k =
     (if k = length segment then restPath remaining else ''/'' @ drop k segment @ remaining)"

text \<open>A path without its slashes.\<close>

definition unslashed :: "string \<Rightarrow> string" where
  "unslashed p = filter (\<lambda>c. c \<noteq> CHR ''/'') p"

text \<open>
  The places of a path where the search binds a parameter. This is \<^verbatim>\<open>node.search\<close> with
  the route and the map left out: it walks down the same children and lists, for every
  step through a parameter child, the segment bound there and the path remaining after it.
\<close>

function param_steps :: "'r node \<Rightarrow> string \<Rightarrow> (string \<times> string) list" where
  "param_steps n path =
    (if path = ''/'' \<or> path = [] then []
     else
      (case nextSegment (TrimPrefix path ''/'') of (segment, remaining) \<Rightarrow>
        (case findMatch segment (children n) of
           Some i \<Rightarrow>
             (let child = children n ! i
              in if length segment = length (prefix child) then
                   (if remaining = [] then [] else param_steps child remaining)
                 else param_steps child
                        (''/'' @ drop (length (prefix child)) segment @ remaining))
         | None \<Rightarrow>
             (case paramChild n of
                Some pc \<Rightarrow>
                  (segment, remaining) #
                  (if remaining = [] then [] else param_steps pc remaining)
              | None \<Rightarrow> []))))"
  by pat_completeness auto
termination
proof (relation "measure (\<lambda>(n, path). size n)", goal_cases)
  case 1 show ?case by simp
next
  case 2 then show ?case using findMatch_Some size_child size_paramChild by fastforce
next
  case 3 then show ?case using findMatch_Some size_child size_paramChild by fastforce
next
  case 4 then show ?case using findMatch_Some size_child size_paramChild by fastforce
qed

declare param_steps.simps [simp del]

definition tree_param_steps :: "'r tree \<Rightarrow> string \<Rightarrow> (string \<times> string) list" where
  "tree_param_steps t path = param_steps (root t) (if path = [] then ''/'' else path)"

text \<open>
  A pattern covers a path when the two can be read side by side to their ends, the way
  the insertion of the pattern and the search for the path go down the same nodes: a byte
  of the pattern's segment against the same byte of the path's segment (a slash between
  two segments counts for nothing, since a node hands \<^verbatim>\<open>"/" + segment[k:] + remaining\<close>
  down), or a segment of the pattern that starts with a colon against the whole segment of
  the path, and both end together. So a pattern covers its own path, the paths it matches
  with its parameters, and the paths that differ from these in their slashes.
\<close>

lemma TrimPrefix_rest:
  "rm \<noteq> [] \<Longrightarrow> hd rm = CHR ''/'' \<Longrightarrow> length (TrimPrefix (restPath rm) ''/'') < length rm"
  by (cases rm) (auto simp: restPath_def TrimPrefix_slash)

lemma descend_shorter:
  assumes "0 < k" "k \<le> length sq" "rq \<noteq> [] \<longrightarrow> hd rq = CHR ''/''"
  shows "length (TrimPrefix (descend sq rq k) ''/'') < length sq + length rq"
proof (cases "k = length sq")
  case True
  show ?thesis
  proof (cases "rq = []")
    case e: True
    with True assms(1) show ?thesis
      by (simp add: descend_def restPath_def TrimPrefix_def HasPrefix_def)
  next
    case False
    with assms(3) TrimPrefix_rest[of rq] True show ?thesis by (simp add: descend_def)
  qed
next
  case False
  with assms show ?thesis by (simp add: descend_def TrimPrefix_slash)
qed

function covers :: "string \<Rightarrow> string \<Rightarrow> bool" where
  "covers p q =
     (if p = ''/'' then q = ''/'' \<or> q = []
      else if q = ''/'' \<or> q = [] then False
      else
       (case nextSegment (TrimPrefix p ''/'') of (sp, rp) \<Rightarrow>
        (case nextSegment (TrimPrefix q ''/'') of (sq, rq) \<Rightarrow>
          (if sp \<noteq> [] \<and> hd sp = CHR '':'' then covers (restPath rp) (restPath rq)
           else False) \<or>
          (if sp \<noteq> [] \<and> sq \<noteq> [] \<and> hd sp = hd sq
           then covers (descend sp rp 1) (descend sq rq 1)
           else False))))"
  by pat_completeness auto
termination
proof (relation "measure (\<lambda>(p, q). length (TrimPrefix p ''/''))", goal_cases)
  case 1 show ?case by simp
next
  case (2 p q sp rp sq rq)
  then have e: "nextSegment (TrimPrefix p ''/'') = (sp, rp)" by simp
  have "length (TrimPrefix (restPath rp) ''/'') < length sp + length rp"
  proof (cases "rp = []")
    case True
    with 2 show ?thesis by (simp add: restPath_def TrimPrefix_def HasPrefix_def)
  next
    case False
    with TrimPrefix_rest[OF False] nextSegment_remaining[OF e] show ?thesis by simp
  qed
  then show ?case using nextSegment_append[OF e] by simp
next
  case (3 p q sp rp sq rq)
  then have e: "nextSegment (TrimPrefix p ''/'') = (sp, rp)" by simp
  have "length (TrimPrefix (descend sp rp 1) ''/'') < length sp + length rp"
    using descend_shorter[of 1 sp rp] 3 nextSegment_remaining[OF e]
    by (cases sp) auto
  then show ?case using nextSegment_append[OF e] by simp
qed

declare covers.simps [simp del]

section \<open>Basic facts about the model\<close>

subsection \<open>Field updates and the split node\<close>

lemma sel_set_route [simp]:
  "nType (set_route n r) = nType n" "label (set_route n r) = label n"
  "prefix (set_route n r) = prefix n" "paramKey (set_route n r) = paramKey n"
  "route (set_route n r) = r" "children (set_route n r) = children n"
  "paramChild (set_route n r) = paramChild n"
  by (cases n, simp)+

lemma sel_set_children [simp]:
  "nType (set_children n cs) = nType n" "label (set_children n cs) = label n"
  "prefix (set_children n cs) = prefix n" "paramKey (set_children n cs) = paramKey n"
  "route (set_children n cs) = route n" "children (set_children n cs) = cs"
  "paramChild (set_children n cs) = paramChild n"
  by (cases n, simp)+

lemma sel_set_paramChild [simp]:
  "nType (set_paramChild n pc) = nType n" "label (set_paramChild n pc) = label n"
  "prefix (set_paramChild n pc) = prefix n" "paramKey (set_paramChild n pc) = paramKey n"
  "route (set_paramChild n pc) = route n" "children (set_paramChild n pc) = children n"
  "paramChild (set_paramChild n pc) = pc"
  by (cases n, simp)+

lemma sel_set_prefix [simp]:
  "nType (set_prefix n p l) = nType n" "label (set_prefix n p l) = l"
  "prefix (set_prefix n p l) = p" "paramKey (set_prefix n p l) = paramKey n"
  "route (set_prefix n p l) = route n" "children (set_prefix n p l) = children n"
  "paramChild (set_prefix n p l) = paramChild n"
  by (cases n, simp)+

lemma sel_splitChild [simp]:
  "nType (splitChild c k) = static" "label (splitChild c k) = label c"
  "prefix (splitChild c k) = take k (prefix c)" "paramKey (splitChild c k) = []"
  "route (splitChild c k) = None"
  "children (splitChild c k) = [set_prefix c (drop k (prefix c)) (hd (drop k (prefix c)))]"
  "paramChild (splitChild c k) = None"
  by (simp_all add: splitChild_def Let_def)

subsection \<open>longestCommonPrefix\<close>

text \<open>The loop stops at the first index where the two strings differ, or at the end of
  the shorter one.\<close>

lemma lcpLoop_spec:
  assumes "i \<le> mx" "mx \<le> length a" "mx \<le> length b" "\<forall>j<i. a ! j = b ! j"
  shows "i \<le> lcpLoop a b i mx \<and> lcpLoop a b i mx \<le> mx \<and>
         (\<forall>j < lcpLoop a b i mx. a ! j = b ! j) \<and>
         (lcpLoop a b i mx < mx \<longrightarrow> a ! lcpLoop a b i mx \<noteq> b ! lcpLoop a b i mx)"
  using assms
proof (induction a b i mx rule: lcpLoop.induct)
  case (1 a b i mx)
  show ?case
  proof (cases "i < mx")
    case False
    with 1 show ?thesis by (subst (1 2 3 4 5 6) lcpLoop.simps) simp
  next
    case True
    show ?thesis
    proof (cases "a ! i = b ! i")
      case False
      with True 1 show ?thesis by (subst (1 2 3 4 5 6) lcpLoop.simps) simp
    next
      case e: True
      have "\<forall>j<i + 1. a ! j = b ! j" using e 1(5) by (auto simp: less_Suc_eq)
      with 1(1)[OF True _ _ "1.prems"(2,3)] True e
      have ih: "i + 1 \<le> lcpLoop a b (i + 1) mx \<and> lcpLoop a b (i + 1) mx \<le> mx \<and>
         (\<forall>j < lcpLoop a b (i + 1) mx. a ! j = b ! j) \<and>
         (lcpLoop a b (i + 1) mx < mx \<longrightarrow> a ! lcpLoop a b (i + 1) mx \<noteq> b ! lcpLoop a b (i + 1) mx)"
        by simp
      have "lcpLoop a b i mx = lcpLoop a b (i + 1) mx"
        using True e by (subst lcpLoop.simps) simp
      with ih show ?thesis by simp
    qed
  qed
qed

lemma lcp_spec:
  "longestCommonPrefix a b \<le> length a \<and> longestCommonPrefix a b \<le> length b \<and>
   (\<forall>j < longestCommonPrefix a b. a ! j = b ! j) \<and>
   (longestCommonPrefix a b < length a \<and> longestCommonPrefix a b < length b \<longrightarrow>
      a ! longestCommonPrefix a b \<noteq> b ! longestCommonPrefix a b)"
  using lcpLoop_spec[of 0 "min (length a) (length b)" a b]
  by (auto simp: longestCommonPrefix_def Let_def min_def split: if_splits)

lemma lcp_take: "take (longestCommonPrefix a b) a = take (longestCommonPrefix a b) b"
  using lcp_spec[of a b] by (intro nth_equalityI) auto

lemma lcp_Nil [simp]: "longestCommonPrefix [] b = 0" "longestCommonPrefix a [] = 0"
  using lcp_spec[of "[]" b] lcp_spec[of a "[]"] by auto

lemma lcp_Cons [simp]:
  "longestCommonPrefix (x # xs) (y # ys) = (if x = y then Suc (longestCommonPrefix xs ys) else 0)"
proof (cases "x = y")
  case False
  have "\<not> 0 < longestCommonPrefix (x # xs) (y # ys)"
    using lcp_spec[of "x # xs" "y # ys"] False by fastforce
  with False show ?thesis by simp
next
  case True
  let ?k = "longestCommonPrefix (x # xs) (y # ys)" and ?m = "longestCommonPrefix xs ys"
  have k: "?k \<le> Suc (length xs)" "?k \<le> Suc (length ys)" "\<forall>j < ?k. (x # xs) ! j = (y # ys) ! j"
    "?k < Suc (length xs) \<and> ?k < Suc (length ys) \<longrightarrow> (x # xs) ! ?k \<noteq> (y # ys) ! ?k"
    using lcp_spec[of "x # xs" "y # ys"] by auto
  have m: "?m \<le> length xs" "?m \<le> length ys" "\<forall>j < ?m. xs ! j = ys ! j"
    "?m < length xs \<and> ?m < length ys \<longrightarrow> xs ! ?m \<noteq> ys ! ?m"
    using lcp_spec[of xs ys] by auto
  have "\<not> ?k < Suc ?m"
  proof
    assume a: "?k < Suc ?m"
    then have "?k < Suc (length xs)" "?k < Suc (length ys)" using m by auto
    with k(4) have ne: "(x # xs) ! ?k \<noteq> (y # ys) ! ?k" by simp
    show False
    proof (cases ?k)
      case 0 with ne True show False by simp
    next
      case (Suc j)
      with a have "j < ?m" by simp
      with m(3) have "xs ! j = ys ! j" by simp
      with ne Suc show False by simp
    qed
  qed
  moreover have "\<not> Suc ?m < ?k"
  proof
    assume a: "Suc ?m < ?k"
    with k(3) have "(x # xs) ! Suc ?m = (y # ys) ! Suc ?m" by blast
    then have e: "xs ! ?m = ys ! ?m" by simp
    from a k have "?m < length xs" "?m < length ys" by auto
    with m(4) e show False by simp
  qed
  ultimately show ?thesis using True by simp
qed

lemma lcp_zero_iff: "longestCommonPrefix a b = 0 \<longleftrightarrow> a = [] \<or> b = [] \<or> hd a \<noteq> hd b"
  by (cases a; cases b) auto

lemma lcp_full_iff: "longestCommonPrefix a b = length b \<longleftrightarrow> HasPrefix a b"
proof (induction a arbitrary: b)
  case Nil then show ?case by (auto simp: HasPrefix_def)
next
  case (Cons x a)
  show ?case
  proof (cases b)
    case Nil then show ?thesis by (simp add: HasPrefix_def)
  next
    case (Cons y b')
    with Cons.IH[of b'] show ?thesis by (auto simp: HasPrefix_def)
  qed
qed

lemma HasPrefix_lcp_pos: "HasPrefix a b \<Longrightarrow> b \<noteq> [] \<Longrightarrow> longestCommonPrefix a b \<noteq> 0"
  using lcp_full_iff[of a b] by auto

subsection \<open>Cutting a segment\<close>

lemma nextSegment_Nil [simp]: "nextSegment [] = ([], [])"
  by (simp add: nextSegment_eq)

lemma nextSegment_Cons [simp]:
  "nextSegment (c # cs) =
     (if c = CHR ''/'' then ([], c # cs) else (c # fst (nextSegment cs), snd (nextSegment cs)))"
  by (simp add: nextSegment_eq)

lemma nextSegment_noslash: "CHR ''/'' \<notin> set s \<Longrightarrow> nextSegment s = (s, [])"
  by (induction s) auto

text \<open>The equations that evaluate the tree operations on given strings.\<close>

lemmas eval_defs = tree_insert_def tree_search_def newTree_def node_insert.simps
  node_search.simps TrimPrefix_def HasPrefix_def zeroByte_def

lemma findMatch_set:
  "findMatch seg cs \<noteq> None \<longleftrightarrow>
     (\<exists>c\<in>set cs. nType c = static \<and> HasPrefix seg (prefix c))"
  by (induction cs) (auto simp: HasPrefix_def)

subsection \<open>The cases of a successful insertion\<close>

text \<open>
  Induction over the run of \<^verbatim>\<open>node.insert\<close> that returns: one case for each place where
  the function returns, with the result of the recursive call and the property for it.
\<close>

lemma node_insert_cases_induct [consumes 1, case_names root param_last param_more
    exact_last exact_more longer split_last split_more split_longer new_last new_more]:
  assumes ins: "node_insert n path r = Inr n'"
    and root: "\<And>n r. P n ''/'' r (set_route n r)"
    and param_last: "\<And>n path r seg.
        path \<noteq> ''/'' \<Longrightarrow> nextSegment (TrimPrefix path ''/'') = (seg, []) \<Longrightarrow>
        seg \<noteq> [] \<Longrightarrow> hd seg = CHR '':'' \<Longrightarrow>
        P n path r (set_paramChild n (Some (set_route (paramSlot n seg) r)))"
    and param_more: "\<And>n path r seg rm pc'.
        path \<noteq> ''/'' \<Longrightarrow> nextSegment (TrimPrefix path ''/'') = (seg, rm) \<Longrightarrow>
        seg \<noteq> [] \<Longrightarrow> hd seg = CHR '':'' \<Longrightarrow> rm \<noteq> [] \<Longrightarrow>
        node_insert (paramSlot n seg) rm r = Inr pc' \<Longrightarrow> P (paramSlot n seg) rm r pc' \<Longrightarrow>
        P n path r (set_paramChild n (Some pc'))"
    and exact_last: "\<And>n path r seg i.
        path \<noteq> ''/'' \<Longrightarrow> nextSegment (TrimPrefix path ''/'') = (seg, []) \<Longrightarrow>
        \<not> (seg \<noteq> [] \<and> hd seg = CHR '':'') \<Longrightarrow> findOverlap seg (children n) = Some i \<Longrightarrow>
        longestCommonPrefix seg (prefix (children n ! i)) = length (prefix (children n ! i)) \<Longrightarrow>
        length (prefix (children n ! i)) = length seg \<Longrightarrow>
        P n path r (set_children n ((children n)[i := set_route (children n ! i) r]))"
    and exact_more: "\<And>n path r seg rm i c'.
        path \<noteq> ''/'' \<Longrightarrow> nextSegment (TrimPrefix path ''/'') = (seg, rm) \<Longrightarrow>
        \<not> (seg \<noteq> [] \<and> hd seg = CHR '':'') \<Longrightarrow> findOverlap seg (children n) = Some i \<Longrightarrow>
        longestCommonPrefix seg (prefix (children n ! i)) = length (prefix (children n ! i)) \<Longrightarrow>
        length (prefix (children n ! i)) = length seg \<Longrightarrow> rm \<noteq> [] \<Longrightarrow>
        node_insert (children n ! i) rm r = Inr c' \<Longrightarrow> P (children n ! i) rm r c' \<Longrightarrow>
        P n path r (set_children n ((children n)[i := c']))"
    and longer: "\<And>n path r seg rm i c'.
        path \<noteq> ''/'' \<Longrightarrow> nextSegment (TrimPrefix path ''/'') = (seg, rm) \<Longrightarrow>
        \<not> (seg \<noteq> [] \<and> hd seg = CHR '':'') \<Longrightarrow> findOverlap seg (children n) = Some i \<Longrightarrow>
        longestCommonPrefix seg (prefix (children n ! i)) = length (prefix (children n ! i)) \<Longrightarrow>
        length (prefix (children n ! i)) \<noteq> length seg \<Longrightarrow>
        node_insert (children n ! i)
          (''/'' @ drop (length (prefix (children n ! i))) seg @ rm) r = Inr c' \<Longrightarrow>
        P (children n ! i) (''/'' @ drop (length (prefix (children n ! i))) seg @ rm) r c' \<Longrightarrow>
        P n path r (set_children n ((children n)[i := c']))"
    and split_last: "\<And>n path r seg i k.
        path \<noteq> ''/'' \<Longrightarrow> nextSegment (TrimPrefix path ''/'') = (seg, []) \<Longrightarrow>
        \<not> (seg \<noteq> [] \<and> hd seg = CHR '':'') \<Longrightarrow> findOverlap seg (children n) = Some i \<Longrightarrow>
        k = longestCommonPrefix seg (prefix (children n ! i)) \<Longrightarrow>
        k \<noteq> length (prefix (children n ! i)) \<Longrightarrow> k = length seg \<Longrightarrow>
        P n path r (set_children n
           ((children n)[i := set_route (splitChild (children n ! i) k) r]))"
    and split_more: "\<And>n path r seg rm i k s'.
        path \<noteq> ''/'' \<Longrightarrow> nextSegment (TrimPrefix path ''/'') = (seg, rm) \<Longrightarrow>
        \<not> (seg \<noteq> [] \<and> hd seg = CHR '':'') \<Longrightarrow> findOverlap seg (children n) = Some i \<Longrightarrow>
        k = longestCommonPrefix seg (prefix (children n ! i)) \<Longrightarrow>
        k \<noteq> length (prefix (children n ! i)) \<Longrightarrow> k = length seg \<Longrightarrow> rm \<noteq> [] \<Longrightarrow>
        node_insert (splitChild (children n ! i) k) rm r = Inr s' \<Longrightarrow>
        P (splitChild (children n ! i) k) rm r s' \<Longrightarrow>
        P n path r (set_children n ((children n)[i := s']))"
    and split_longer: "\<And>n path r seg rm i k s'.
        path \<noteq> ''/'' \<Longrightarrow> nextSegment (TrimPrefix path ''/'') = (seg, rm) \<Longrightarrow>
        \<not> (seg \<noteq> [] \<and> hd seg = CHR '':'') \<Longrightarrow> findOverlap seg (children n) = Some i \<Longrightarrow>
        k = longestCommonPrefix seg (prefix (children n ! i)) \<Longrightarrow>
        k \<noteq> length (prefix (children n ! i)) \<Longrightarrow> k \<noteq> length seg \<Longrightarrow>
        node_insert (splitChild (children n ! i) k) (''/'' @ drop k seg @ rm) r = Inr s' \<Longrightarrow>
        P (splitChild (children n ! i) k) (''/'' @ drop k seg @ rm) r s' \<Longrightarrow>
        P n path r (set_children n ((children n)[i := s']))"
    and new_last: "\<And>n path r seg c cs.
        path \<noteq> ''/'' \<Longrightarrow> nextSegment (TrimPrefix path ''/'') = (seg, []) \<Longrightarrow>
        \<not> (seg \<noteq> [] \<and> hd seg = CHR '':'') \<Longrightarrow> findOverlap seg (children n) = None \<Longrightarrow>
        seg = c # cs \<Longrightarrow>
        P n path r (set_children n
           (children n @ [set_route (Node static c seg [] None [] None) r]))"
    and new_more: "\<And>n path r seg rm c cs c'.
        path \<noteq> ''/'' \<Longrightarrow> nextSegment (TrimPrefix path ''/'') = (seg, rm) \<Longrightarrow>
        \<not> (seg \<noteq> [] \<and> hd seg = CHR '':'') \<Longrightarrow> findOverlap seg (children n) = None \<Longrightarrow>
        seg = c # cs \<Longrightarrow> rm \<noteq> [] \<Longrightarrow>
        node_insert (Node static c seg [] None [] None) rm r = Inr c' \<Longrightarrow>
        P (Node static c seg [] None [] None) rm r c' \<Longrightarrow>
        P n path r (set_children n (children n @ [c']))"
  shows "P n path r n'"
  using ins
proof (induction n path r arbitrary: n' rule: node_insert.induct)
  case (1 n path r)
  show ?case
  proof (cases "path = ''/''")
    case True
    with "1.prems" have "n' = set_route n r" by (simp add: node_insert.simps)
    with True root show ?thesis by simp
  next
    case nr: False
    obtain seg rm where sg: "nextSegment (TrimPrefix path ''/'') = (seg, rm)" by force
    note ih = "1.IH"[OF nr sg[symmetric]]
    show ?thesis
    proof (cases "seg \<noteq> [] \<and> hd seg = CHR '':''")
      case pr: True
      note ihp = ih(1)[OF pr refl]
      show ?thesis
      proof (cases "rm = []")
        case True
        with "1.prems" nr sg pr
        have b: "n' = set_paramChild n (Some (set_route (paramSlot n seg) r))"
          by (auto simp: node_insert.simps[of n] paramSlot_def)
        from True sg have sg': "nextSegment (TrimPrefix path ''/'') = (seg, [])" by simp
        from param_last[OF nr sg'] pr b show ?thesis by simp
      next
        case False
        with "1.prems" nr sg pr obtain pc' where
          a: "node_insert (paramSlot n seg) rm r = Inr pc'" and b: "n' = set_paramChild n (Some pc')"
          by (auto simp: node_insert.simps[of n] paramSlot_def split: sum.splits)
        from ihp[OF False] a have "P (paramSlot n seg) rm r pc'" by (simp add: paramSlot_def)
        with param_more[OF nr sg _ _ False a] pr b show ?thesis by simp
      qed
    next
      case st: False
      show ?thesis
      proof (cases "findOverlap seg (children n)")
        case None
        with "1.prems" nr sg st obtain c cs where sc: "seg = c # cs"
          by (cases seg) (auto simp: node_insert.simps[of n])
        note ihn = ih(2)[OF st None sc refl]
        show ?thesis
        proof (cases "rm = []")
          case True
          with "1.prems" nr sg st None sc
          have b: "n' = set_children n (children n @ [set_route (Node static c seg [] None [] None) r])"
            by (auto simp: node_insert.simps[of n])
          from True sg have sg': "nextSegment (TrimPrefix path ''/'') = (seg, [])" by simp
          from new_last[OF nr sg' st None sc] b show ?thesis by simp
        next
          case False
          with "1.prems" nr sg st None sc obtain c' where
            a: "node_insert (Node static c seg [] None [] None) rm r = Inr c'"
            and b: "n' = set_children n (children n @ [c'])"
            by (auto simp: node_insert.simps[of n] split: sum.splits)
          from ihn[OF False] a sc have "P (Node static c seg [] None [] None) rm r c'" by simp
          with new_more[OF nr sg st None sc False a] b show ?thesis by simp
        qed
      next
        case (Some i)
        let ?child = "children n ! i"
        let ?k = "longestCommonPrefix seg (prefix ?child)"
        note ihs = ih(3-6)[OF st Some refl refl]
        show ?thesis
        proof (cases "?k = length (prefix ?child)")
          case full: True
          show ?thesis
          proof (cases "?k = length seg")
            case ex: True
            show ?thesis
            proof (cases "rm = []")
              case True
              with "1.prems" nr sg st Some full ex
              have b: "n' = set_children n ((children n)[i := set_route ?child r])"
                by (auto simp: node_insert.simps[of n] Let_def)
              from True sg have sg': "nextSegment (TrimPrefix path ''/'') = (seg, [])" by simp
              from full ex have "length (prefix ?child) = length seg" by simp
              from exact_last[OF nr sg' st Some full this] b show ?thesis by simp
            next
              case False
              with "1.prems" nr sg st Some full ex obtain c' where
                a: "node_insert ?child rm r = Inr c'"
                and b: "n' = set_children n ((children n)[i := c'])"
                by (auto simp: node_insert.simps[of n] Let_def split: sum.splits)
              from ihs(1)[OF full ex False] a have "P ?child rm r c'" by simp
              moreover from full ex have "length (prefix ?child) = length seg" by simp
              ultimately show ?thesis using exact_more[OF nr sg st Some full _ False a] b by simp
            qed
          next
            case lg: False
            with "1.prems" nr sg st Some full obtain c' where
              a: "node_insert ?child (''/'' @ drop ?k seg @ rm) r = Inr c'"
              and b: "n' = set_children n ((children n)[i := c'])"
              by (auto simp: node_insert.simps[of n] Let_def split: sum.splits)
            from ihs(2)[OF full lg] a have "P ?child (''/'' @ drop ?k seg @ rm) r c'" by simp
            with full have p: "P ?child (''/'' @ drop (length (prefix ?child)) seg @ rm) r c'"
              by simp
            from a full have a': "node_insert ?child
                (''/'' @ drop (length (prefix ?child)) seg @ rm) r = Inr c'" by simp
            from full lg have ne: "length (prefix ?child) \<noteq> length seg" by simp
            from longer[OF nr sg st Some full ne a' p] b show ?thesis by simp
          qed
        next
          case sp: False
          show ?thesis
          proof (cases "?k = length seg")
            case ex: True
            show ?thesis
            proof (cases "rm = []")
              case True
              with "1.prems" nr sg st Some sp ex
              have b: "n' = set_children n ((children n)[i := set_route (splitChild ?child ?k) r])"
                by (auto simp: node_insert.simps[of n] Let_def)
              from True sg have sg': "nextSegment (TrimPrefix path ''/'') = (seg, [])" by simp
              from split_last[OF nr sg' st Some refl sp ex] b show ?thesis by simp
            next
              case False
              with "1.prems" nr sg st Some sp ex obtain s' where
                a: "node_insert (splitChild ?child ?k) rm r = Inr s'"
                and b: "n' = set_children n ((children n)[i := s'])"
                by (auto simp: node_insert.simps[of n] Let_def split: sum.splits)
              from ihs(3)[OF sp refl ex False] a have "P (splitChild ?child ?k) rm r s'" by simp
              with split_more[OF nr sg st Some refl sp ex False a] b show ?thesis by simp
            qed
          next
            case lg: False
            with "1.prems" nr sg st Some sp obtain s' where
              a: "node_insert (splitChild ?child ?k) (''/'' @ drop ?k seg @ rm) r = Inr s'"
              and b: "n' = set_children n ((children n)[i := s'])"
              by (auto simp: node_insert.simps[of n] Let_def split: sum.splits)
            from ihs(4)[OF sp refl lg] a
            have "P (splitChild ?child ?k) (''/'' @ drop ?k seg @ rm) r s'" by simp
            with split_longer[OF nr sg st Some refl sp lg a] b show ?thesis by simp
          qed
        qed
      qed
    qed
  qed
qed

lemma findOverlap_None:
  "findOverlap seg cs = None \<Longrightarrow> c \<in> set cs \<Longrightarrow> nType c = static \<Longrightarrow>
     longestCommonPrefix seg (prefix c) = 0"
  by (induction cs) (auto split: if_splits)

lemma node_insert_fields:
  assumes "node_insert n path r = Inr n'"
  shows "nType n' = nType n \<and> label n' = label n \<and> prefix n' = prefix n \<and>
         paramKey n' = paramKey n"
  using assms by (induction rule: node_insert_cases_induct) simp_all

lemma overlap_facts:
  assumes "findOverlap seg (children n) = Some i"
  shows "i < length (children n)" "nType (children n ! i) = static"
    "longestCommonPrefix seg (prefix (children n ! i)) \<noteq> 0"
  using findOverlap_Some[OF assms] by simp_all

lemma split_len:
  "k = longestCommonPrefix seg p \<Longrightarrow> k \<noteq> length p \<Longrightarrow> k < length p"
  using lcp_le2[of seg p] by simp

subsection \<open>The cases of a search\<close>

lemma HasPrefix_len: "HasPrefix s p \<Longrightarrow> length s = length p \<or> length s > length p"
  unfolding HasPrefix_def by (elim conjE) arith

lemma HasPrefix_refl: "HasPrefix s s"
  by (simp add: HasPrefix_def)

lemma HasPrefix_take: "HasPrefix s (take k s)"
  by (simp add: HasPrefix_def min_def)

lemma HasPrefix_hd: "HasPrefix s p \<Longrightarrow> p \<noteq> [] \<Longrightarrow> s \<noteq> [] \<and> hd s = hd p"
  unfolding HasPrefix_def by (cases s; cases p) auto

lemma segment_path_nonempty:
  "nextSegment (TrimPrefix path ''/'') = (seg, rm) \<Longrightarrow> seg \<noteq> [] \<Longrightarrow> path \<noteq> []"
  by (cases path) (auto simp: TrimPrefix_def HasPrefix_def)

lemma search_static:
  assumes "path \<noteq> ''/''" "path \<noteq> []" "nextSegment (TrimPrefix path ''/'') = (seg, rm)"
    "findMatch seg (children n) = Some i"
  shows "node_search n path ps =
     (if length seg = length (prefix (children n ! i)) then
        (if rm = [] then (route (children n ! i), ps) else node_search (children n ! i) rm ps)
      else node_search (children n ! i)
             (''/'' @ drop (length (prefix (children n ! i))) seg @ rm) ps)"
  using assms by (subst node_search.simps) (simp add: Let_def)

lemma search_param:
  assumes "path \<noteq> ''/''" "path \<noteq> []" "nextSegment (TrimPrefix path ''/'') = (seg, rm)"
    "findMatch seg (children n) = None" "paramChild n = Some pc"
  shows "node_search n path ps =
     (if rm = [] then
        (route pc, Some ((case ps of None \<Rightarrow> Map.empty | Some m \<Rightarrow> m)(paramKey pc \<mapsto> seg)))
      else node_search pc rm
             (Some ((case ps of None \<Rightarrow> Map.empty | Some m \<Rightarrow> m)(paramKey pc \<mapsto> seg))))"
  using assms by (subst node_search.simps) (simp add: Let_def)

lemma node_search_cases_induct [case_names here exact_last exact_more longer
    param_last param_more none]:
  assumes here: "\<And>n path ps. path = ''/'' \<or> path = [] \<Longrightarrow> P n path ps (route n, ps)"
    and exact_last: "\<And>n path ps seg i.
        path \<noteq> ''/'' \<Longrightarrow> path \<noteq> [] \<Longrightarrow> nextSegment (TrimPrefix path ''/'') = (seg, []) \<Longrightarrow>
        findMatch seg (children n) = Some i \<Longrightarrow> length seg = length (prefix (children n ! i)) \<Longrightarrow>
        P n path ps (route (children n ! i), ps)"
    and exact_more: "\<And>n path ps seg rm i.
        path \<noteq> ''/'' \<Longrightarrow> path \<noteq> [] \<Longrightarrow> nextSegment (TrimPrefix path ''/'') = (seg, rm) \<Longrightarrow>
        findMatch seg (children n) = Some i \<Longrightarrow> length seg = length (prefix (children n ! i)) \<Longrightarrow>
        rm \<noteq> [] \<Longrightarrow> P (children n ! i) rm ps (node_search (children n ! i) rm ps) \<Longrightarrow>
        P n path ps (node_search (children n ! i) rm ps)"
    and longer: "\<And>n path ps seg rm i.
        path \<noteq> ''/'' \<Longrightarrow> path \<noteq> [] \<Longrightarrow> nextSegment (TrimPrefix path ''/'') = (seg, rm) \<Longrightarrow>
        findMatch seg (children n) = Some i \<Longrightarrow> length seg \<noteq> length (prefix (children n ! i)) \<Longrightarrow>
        P (children n ! i) (''/'' @ drop (length (prefix (children n ! i))) seg @ rm) ps
          (node_search (children n ! i)
             (''/'' @ drop (length (prefix (children n ! i))) seg @ rm) ps) \<Longrightarrow>
        P n path ps (node_search (children n ! i)
             (''/'' @ drop (length (prefix (children n ! i))) seg @ rm) ps)"
    and param_last: "\<And>n path ps seg pc.
        path \<noteq> ''/'' \<Longrightarrow> path \<noteq> [] \<Longrightarrow> nextSegment (TrimPrefix path ''/'') = (seg, []) \<Longrightarrow>
        findMatch seg (children n) = None \<Longrightarrow> paramChild n = Some pc \<Longrightarrow>
        P n path ps (route pc, bind_param ps (paramKey pc) seg)"
    and param_more: "\<And>n path ps seg rm pc.
        path \<noteq> ''/'' \<Longrightarrow> path \<noteq> [] \<Longrightarrow> nextSegment (TrimPrefix path ''/'') = (seg, rm) \<Longrightarrow>
        findMatch seg (children n) = None \<Longrightarrow> paramChild n = Some pc \<Longrightarrow> rm \<noteq> [] \<Longrightarrow>
        P pc rm (bind_param ps (paramKey pc) seg)
          (node_search pc rm (bind_param ps (paramKey pc) seg)) \<Longrightarrow>
        P n path ps (node_search pc rm (bind_param ps (paramKey pc) seg))"
    and none: "\<And>n path ps seg rm.
        path \<noteq> ''/'' \<Longrightarrow> path \<noteq> [] \<Longrightarrow> nextSegment (TrimPrefix path ''/'') = (seg, rm) \<Longrightarrow>
        findMatch seg (children n) = None \<Longrightarrow> paramChild n = None \<Longrightarrow>
        P n path ps (None, ps)"
  shows "P n path ps (node_search n path ps)"
proof (induction n path ps rule: node_search.induct)
  case (1 n path ps)
  show ?case
  proof (cases "path = ''/'' \<or> path = []")
    case True
    then have "node_search n path ps = (route n, ps)" by (subst node_search.simps) simp
    with here[OF True] show ?thesis by simp
  next
    case nr: False
    then have p: "path \<noteq> ''/''" "path \<noteq> []" by simp_all
    obtain seg rm where sg: "nextSegment (TrimPrefix path ''/'') = (seg, rm)" by force
    note ih = "1.IH"[OF nr sg[symmetric]]
    show ?thesis
    proof (cases "findMatch seg (children n)")
      case None
      show ?thesis
      proof (cases "paramChild n")
        case pn: None
        with None sg nr have "node_search n path ps = (None, ps)"
          by (subst node_search.simps) simp
        with none[OF p sg None pn] show ?thesis by simp
      next
        case (Some pc)
        note ihp = ih(1)[OF None Some]
        show ?thesis
        proof (cases "rm = []")
          case True
          with None Some sg nr
          have "node_search n path ps = (route pc, bind_param ps (paramKey pc) seg)"
            by (subst node_search.simps) (simp add: bind_param_def)
          with param_last[OF p _ None Some] sg True show ?thesis by simp
        next
          case False
          with None Some sg nr
          have e: "node_search n path ps = node_search pc rm (bind_param ps (paramKey pc) seg)"
            by (subst node_search.simps) (simp add: bind_param_def)
          have "P pc rm (bind_param ps (paramKey pc) seg)
                  (node_search pc rm (bind_param ps (paramKey pc) seg))"
            using ihp[OF refl False] by (simp add: bind_param_def)
          with param_more[OF p sg None Some False] e show ?thesis by simp
        qed
      qed
    next
      case (Some i)
      let ?c = "children n ! i"
      note ihs = ih(2,3)[OF Some refl]
      show ?thesis
      proof (cases "length seg = length (prefix ?c)")
        case ex: True
        show ?thesis
        proof (cases "rm = []")
          case True
          with Some sg nr ex have "node_search n path ps = (route ?c, ps)"
            by (subst node_search.simps) (simp add: Let_def)
          with exact_last[OF p _ Some ex] sg True show ?thesis by simp
        next
          case False
          with Some sg nr ex have e: "node_search n path ps = node_search ?c rm ps"
            by (subst node_search.simps) (simp add: Let_def)
          with exact_more[OF p sg Some ex False ihs(1)[OF ex False]] show ?thesis by simp
        qed
      next
        case lg: False
        with Some sg nr have e: "node_search n path ps =
            node_search ?c (''/'' @ drop (length (prefix ?c)) seg @ rm) ps"
          by (subst node_search.simps) (simp add: Let_def)
        with longer[OF p sg Some lg ihs(2)[OF lg]] show ?thesis by simp
      qed
    qed
  qed
qed

lemma match_facts:
  assumes "findMatch seg (children n) = Some i"
  shows "i < length (children n)"
  using findMatch_Some[OF assms] by simp

subsection \<open>tree.insert and tree.search in terms of the root\<close>

lemma tree_insert_normPath:
  "tree_insert t p r =
     (case node_insert (root t) (normPath p) r of Inl e \<Rightarrow> Inl e | Inr n \<Rightarrow> Inr (Tree n))"
  by (simp add: tree_insert_def normPath_def Let_def)

lemma tree_insert_root:
  "tree_insert t p r = Inr t' \<Longrightarrow> node_insert (root t) (normPath p) r = Inr (root t')"
  by (auto simp: tree_insert_normPath split: sum.splits)

lemma search_unslashed:
  assumes "p \<noteq> []" "hd p \<noteq> CHR ''/''"
  shows "node_search n (CHR ''/'' # p) ps = node_search n p ps"
proof -
  from assms have "TrimPrefix p ''/'' = p" "p \<noteq> ''/''"
    by (cases p; auto simp: TrimPrefix_def HasPrefix_def)+
  with assms show ?thesis
    by (subst (1 2) node_search.simps) (simp add: TrimPrefix_slash)
qed

lemma tree_search_normPath: "fst (tree_search t p) = fst (node_search (root t) (normPath p) None)"
proof -
  have "node_search (root t) (normPath p) None =
        node_search (root t) (if p = [] then ''/'' else p) None"
    using search_unslashed[of p "root t" None] by (auto simp: normPath_def)
  then show ?thesis
    by (auto simp: tree_search_def Let_def split: prod.splits option.splits)
qed

lemma tree_search_node:
  assumes "tree_search t q = (Some r, ps)"
  shows "node_search (root t) (if q = [] then ''/'' else q) None = (Some r, ps)"
  using assms by (auto simp: tree_search_def Let_def split: prod.splits option.splits)

section \<open>Properties\<close>

subsection \<open>Parameter extraction\<close>

text \<open>
  C6. After \<^verbatim>\<open>/posts/:postId/comments/:commentId\<close> is registered in an empty tree with a
  route \<open>r\<close>, the search for \<^verbatim>\<open>/posts/123/comments/456\<close> returns \<open>r\<close> and the map with
  exactly the two bindings \<open>postId = 123\<close> and \<open>commentId = 456\<close>.
\<close>

theorem parameter_extraction:
  "\<exists>t. tree_insert newTree ''/posts/:postId/comments/:commentId'' (Some r) = Inr t \<and>
       tree_search t ''/posts/123/comments/456'' =
         (Some r, Some [''postId'' \<mapsto> ''123'', ''commentId'' \<mapsto> ''456''])"
  by (simp add: eval_defs)

subsection \<open>No fall-back after a partial static match\<close>

text \<open>
  C3. The claim is that \<^verbatim>\<open>/users/mexico\<close> falls back to \<^verbatim>\<open>/users/:id\<close> when
  \<^verbatim>\<open>/users/me\<close> is registered too. The code returns from inside the loop over the static
  children: the child \<^verbatim>\<open>me\<close> starts the segment \<^verbatim>\<open>mexico\<close>, the search goes down into
  it with \<^verbatim>\<open>/xico\<close>, finds nothing and returns no route; the parameter child is never
  tried. The evaluation of the code on that input:
\<close>

theorem param_fallback_fails:
  "\<exists>t. inserts newTree [(''/users/me'', Some r1), (''/users/:id'', Some r2)] = Inr t \<and>
       tree_search t ''/users/mexico'' = (None, None)"
  by (simp add: eval_defs)

subsection \<open>A second parameter name at the same position\<close>

text \<open>
  C4, as stated, fails: after \<^verbatim>\<open>/a/:id\<close> and then \<^verbatim>\<open>/a/:slug\<close>, the search for
  \<^verbatim>\<open>/a/x\<close> returns the second route, but binds \<open>x\<close> under \<open>id\<close>, not under \<open>slug\<close>.
\<close>

theorem param_name_collision_counterexample:
  "(case inserts (newTree :: nat tree) [(''/a/:id'', Some 1), (''/a/:slug'', Some 2)] of
      Inl e \<Rightarrow> False
    | Inr t \<Rightarrow> tree_search t ''/a/x'' = (Some 2, Some [''id'' \<mapsto> ''x'']) \<and>
               tree_search t ''/a/x'' \<noteq> (Some 2, Some [''slug'' \<mapsto> ''x'']))"
proof -
  have ne: "[''id'' \<mapsto> ''x''] \<noteq> [''slug'' \<mapsto> ''x'']"
  proof
    assume "[''id'' \<mapsto> ''x''] = [''slug'' \<mapsto> ''x'']"
    then have "[''id'' \<mapsto> ''x''] ''id'' = [''slug'' \<mapsto> ''x''] ''id''" by simp
    then show False by simp
  qed
  show ?thesis using ne by (simp add: eval_defs)
qed

text \<open>
  C4, amended. The parameter child is created only when the node has none; a second
  registration with another name reuses it, without error. So the slot keeps the name of
  the first registration and takes the route of the second: for all names \<open>k1\<close>, \<open>k2\<close>
  and every non-empty segment \<open>x\<close>, after \<^verbatim>\<open>/a/:k1\<close> and then \<^verbatim>\<open>/a/:k2\<close> the search for
  \<^verbatim>\<open>/a/x\<close> returns the second route with \<open>x\<close> bound under \<open>k1\<close>.
\<close>

theorem param_slot_reused:
  assumes "CHR ''/'' \<notin> set k1" "CHR ''/'' \<notin> set k2" "x \<noteq> []" "CHR ''/'' \<notin> set x"
  shows "\<exists>t. inserts newTree [(''/a/:'' @ k1, Some r1), (''/a/:'' @ k2, Some r2)] = Inr t \<and>
             tree_search t (''/a/'' @ x) = (Some r2, Some [k1 \<mapsto> x])"
  using assms by (simp add: eval_defs nextSegment_noslash)

theorem param_slot_reused_witness:
  "\<exists>t. inserts newTree [(''/a/:id'', Some (1::nat)), (''/a/:slug'', Some 2)] = Inr t \<and>
             tree_search t ''/a/x'' = (Some 2, Some [''id'' \<mapsto> ''x''])"
  using param_slot_reused[of "''id''" "''slug''" "''x''" "1::nat" "2::nat"] by simp

subsection \<open>Middleware composition\<close>

lemma chainLoop_take:
  "k \<le> length ms \<Longrightarrow> chainLoop ms (int k - 1) h = foldr (\<lambda>m g. m g) (take k ms) h"
proof (induction k arbitrary: h)
  case 0
  show ?case by (subst chainLoop.simps) simp
next
  case (Suc k)
  then have k: "k < length ms" by simp
  have "chainLoop ms (int (Suc k) - 1) h = chainLoop ms (int k - 1) ((ms ! k) h)"
    by (subst chainLoop.simps) simp
  also have "\<dots> = foldr (\<lambda>m g. m g) (take k ms) ((ms ! k) h)"
    using Suc.IH k by simp
  also have "\<dots> = foldr (\<lambda>m g. m g) (take (Suc k) ms) h"
    using k by (simp add: take_Suc_conv_app_nth)
  finally show ?case .
qed

text \<open>
  C5. \<^verbatim>\<open>Chain(mw[0], ..., mw[n-1])(h)\<close> is \<^verbatim>\<open>mw[0](mw[1](... mw[n-1](h) ...))\<close>: the right
  fold of application over the list, so the first middleware is outermost and the terminal
  handler innermost; the empty chain returns the handler itself.
\<close>

theorem Chain_composition:
  "Chain ms h = foldr (\<lambda>m g. m g) ms h \<and> Chain [] h = h \<and>
   Chain (m # ms) h = m (Chain ms h)"
proof -
  have a: "\<And>xs. Chain xs h = foldr (\<lambda>m g. m g) xs h"
    using chainLoop_take[of _ _ h] by (simp add: Chain_def)
  show ?thesis by (simp add: a)
qed

subsection \<open>Recovery\<close>

text \<open>
  C10. If the wrapped handler returns a triple, the recovery middleware returns the same
  triple, its error untouched; if the handler panics with any value, the middleware
  returns no data, status 500 and an \<^verbatim>\<open>APIError\<close> whose code is
  \<^verbatim>\<open>internal_server_error\<close>, and the panic does not escape.
\<close>

theorem Recovery_contains:
  "(next ctx = Returns (d, s, e) \<longrightarrow> Recovery next ctx = Returns (d, s, e)) \<and>
   (next ctx = Panics v \<longrightarrow>
      (\<exists>a. Recovery next ctx = Returns (None, 500, Some (APIErrorPtr a)) \<and>
           Code a = ''internal_server_error''))"
  by (simp add: Recovery_def recovery_deferred_def recover_def NewAPIError_def
      StatusInternalServerError_def)

theorem Recovery_contains_witness:
  "Recovery (\<lambda>c::nat. if c = 0 then Returns (Some (1::nat), 200, Some (OtherError (7::nat)))
                        else Panics ''boom'') 0
     = Returns (Some 1, 200, Some (OtherError 7)) \<and>
   (\<exists>a. Recovery (\<lambda>c::nat. if c = 0 then Returns (Some (1::nat), 200, Some (OtherError (7::nat)))
                        else Panics ''boom'') 1
          = Returns (None, 500, Some (APIErrorPtr a)) \<and> Code a = ''internal_server_error'')"
  using Recovery_contains[of "\<lambda>c::nat. if c = 0 then Returns (Some (1::nat), 200, Some (OtherError (7::nat)))
                        else Panics ''boom''" 0 "Some 1" 200 "Some (OtherError 7)" "''boom''"]
    Recovery_contains[of "\<lambda>c::nat. if c = 0 then Returns (Some (1::nat), 200, Some (OtherError (7::nat)))
                        else Panics ''boom''" 1 "Some 1" 200 "Some (OtherError 7)" "''boom''"]
  by simp

subsection \<open>Sibling first bytes\<close>

lemma sibling_disjoint_iff:
  "sibling_disjoint n \<longleftrightarrow>
     distinct (map (\<lambda>c. hd (prefix c)) (children n)) \<and>
     (\<forall>c\<in>set (children n). nType c = static \<and> prefix c \<noteq> [] \<and> sibling_disjoint c) \<and>
     (\<forall>pc. paramChild n = Some pc \<longrightarrow> sibling_disjoint pc)"
  by (cases n) (auto split: option.splits)

lemma sd_set_route: "sibling_disjoint n \<Longrightarrow> sibling_disjoint (set_route n r)"
  by (cases n) simp

lemma sd_set_paramChild:
  "sibling_disjoint n \<Longrightarrow> sibling_disjoint pc \<Longrightarrow> sibling_disjoint (set_paramChild n (Some pc))"
  by (cases n) simp

lemma sd_paramSlot: "sibling_disjoint n \<Longrightarrow> sibling_disjoint (paramSlot n seg)"
  by (cases n) (auto simp: paramSlot_def split: option.splits)

lemma sd_update_child:
  assumes "sibling_disjoint n" "i < length (children n)" "sibling_disjoint c'"
    "nType c' = static" "prefix c' \<noteq> []" "hd (prefix c') = hd (prefix (children n ! i))"
  shows "sibling_disjoint (set_children n ((children n)[i := c']))"
proof -
  have "map (\<lambda>c. hd (prefix c)) ((children n)[i := c']) = map (\<lambda>c. hd (prefix c)) (children n)"
    using assms(2,6) by (simp add: map_update list_update_same_conv)
  moreover have "\<forall>c \<in> set ((children n)[i := c']). c = c' \<or> c \<in> set (children n)"
    using set_update_subset_insert[of "children n" i c'] by auto
  ultimately show ?thesis
    using assms by (subst sibling_disjoint_iff) (auto simp: sibling_disjoint_iff[of n])
qed

lemma sd_append_child:
  assumes "sibling_disjoint n" "sibling_disjoint c'" "nType c' = static" "prefix c' \<noteq> []"
    "\<forall>c\<in>set (children n). hd (prefix c) \<noteq> hd (prefix c')"
  shows "sibling_disjoint (set_children n (children n @ [c']))"
  using assms by (subst sibling_disjoint_iff) (auto simp: sibling_disjoint_iff[of n])

lemma sd_splitChild:
  assumes "sibling_disjoint c" "k < length (prefix c)" "nType c = static"
  shows "sibling_disjoint (splitChild c k)"
  using assms by (subst sibling_disjoint_iff) (auto simp: sibling_disjoint_iff[of c] sibling_disjoint_iff[of "set_prefix c x y" for x y])

lemma sd_child:
  "sibling_disjoint n \<Longrightarrow> i < length (children n) \<Longrightarrow>
     sibling_disjoint (children n ! i) \<and> nType (children n ! i) = static \<and>
     prefix (children n ! i) \<noteq> []"
  by (auto simp: sibling_disjoint_iff[of n])

lemma node_insert_sibling_disjoint:
  assumes "node_insert n path r = Inr n'" "sibling_disjoint n"
  shows "sibling_disjoint n'"
  using assms
proof (induction rule: node_insert_cases_induct)
  case (root n r)
  then show ?case by (simp add: sd_set_route)
next
  case (param_last n path r seg)
  then show ?case by (simp add: sd_set_paramChild sd_set_route sd_paramSlot)
next
  case (param_more n path r seg rm pc')
  then show ?case by (simp add: sd_set_paramChild sd_paramSlot)
next
  case (exact_last n path r seg i)
  then have i: "i < length (children n)" using findOverlap_Some by blast
  with exact_last show ?case
    using sd_child[of n i] by (intro sd_update_child) (simp_all add: sd_set_route)
next
  case (exact_more n path r seg rm i c')
  then have i: "i < length (children n)" using findOverlap_Some by blast
  with exact_more show ?case
    using sd_child[of n i] node_insert_fields[of "children n ! i" rm r c']
    by (intro sd_update_child) simp_all
next
  case (longer n path r seg rm i c')
  then have i: "i < length (children n)" using findOverlap_Some by blast
  with longer show ?case
    using sd_child[of n i] node_insert_fields[OF longer(7)]
    by (intro sd_update_child) simp_all
next
  case (split_last n path r seg i k)
  then have i: "i < length (children n)" and k0: "k \<noteq> 0" using findOverlap_Some by blast+
  have kl: "k < length (prefix (children n ! i))"
    using split_last(5,6) lcp_le2[of seg "prefix (children n ! i)"] by simp
  show ?case
    using split_last i k0 kl sd_child[of n i]
    by (intro sd_update_child) (simp_all add: sd_set_route sd_splitChild hd_take)
next
  case (split_more n path r seg rm i k s')
  then have i: "i < length (children n)" and k0: "k \<noteq> 0" using findOverlap_Some by blast+
  have kl: "k < length (prefix (children n ! i))"
    using split_more(5,6) lcp_le2[of seg "prefix (children n ! i)"] by simp
  show ?case
    using split_more i k0 kl sd_child[of n i] node_insert_fields[OF split_more(9)]
    by (intro sd_update_child) (simp_all add: sd_splitChild hd_take)
next
  case (split_longer n path r seg rm i k s')
  then have i: "i < length (children n)" and k0: "k \<noteq> 0" using findOverlap_Some by blast+
  have kl: "k < length (prefix (children n ! i))"
    using split_longer(5,6) lcp_le2[of seg "prefix (children n ! i)"] by simp
  show ?case
    using split_longer i k0 kl sd_child[of n i] node_insert_fields[OF split_longer(8)]
    by (intro sd_update_child) (simp_all add: sd_splitChild hd_take)
next
  case (new_last n path r seg c cs)
  have "\<forall>x\<in>set (children n). hd (prefix x) \<noteq> c"
  proof
    fix x assume x: "x \<in> set (children n)"
    with new_last(6) have "nType x = static" "prefix x \<noteq> []"
      by (auto simp: sibling_disjoint_iff[of n])
    with findOverlap_None[OF new_last(4) x] new_last(5) show "hd (prefix x) \<noteq> c"
      by (auto simp: lcp_zero_iff)
  qed
  with new_last show ?case by (intro sd_append_child) simp_all
next
  case (new_more n path r seg rm c cs c')
  have "\<forall>x\<in>set (children n). hd (prefix x) \<noteq> c"
  proof
    fix x assume x: "x \<in> set (children n)"
    with new_more(9) have "nType x = static" "prefix x \<noteq> []"
      by (auto simp: sibling_disjoint_iff[of n])
    with findOverlap_None[OF new_more(4) x] new_more(5) show "hd (prefix x) \<noteq> c"
      by (auto simp: lcp_zero_iff)
  qed
  with new_more show ?case
    using node_insert_fields[OF new_more(7)] by (intro sd_append_child) simp_all
qed

lemma inserts_sibling_disjoint:
  "inserts t xs = Inr t' \<Longrightarrow> sibling_disjoint (root t) \<Longrightarrow> sibling_disjoint (root t')"
proof (induction xs arbitrary: t)
  case Nil then show ?case by simp
next
  case (Cons a xs)
  obtain p r where a: "a = (p, r)" by force
  with Cons.prems obtain t1 where t1: "tree_insert t p r = Inr t1" "inserts t1 xs = Inr t'"
    by (auto split: sum.splits)
  from t1(1) obtain n1 where "node_insert (root t) (let path = (if p = [] then ''/'' else p) in (if hd path \<noteq> CHR ''/'' then ''/'' @ path else path)) r = Inr n1" "t1 = Tree n1"
    by (auto simp: tree_insert_def Let_def split: sum.splits)
  with Cons.prems(2) have "sibling_disjoint (root t1)"
    using node_insert_sibling_disjoint by fastforce
  with Cons.IH t1(2) show ?case by simp
qed

text \<open>
  C8. Every tree obtained from the empty tree by a sequence of insertions (each of which
  returns) has, at every node, children with pairwise distinct first bytes. The split of
  a partially overlapping child keeps the first byte of the slot: the new intermediate node
  takes the common prefix, the old child moves below it with the rest of its prefix.
\<close>

theorem sibling_first_bytes_disjoint:
  "inserts newTree xs = Inr t \<Longrightarrow> sibling_disjoint (root t)"
  using inserts_sibling_disjoint[of newTree xs t] by (simp add: newTree_def)

theorem sibling_first_bytes_disjoint_witness:
  "inserts newTree [(''/ab'', Some (1::nat)), (''/ac'', Some 2)] =
     Inr (Tree (Node static zeroByte [] [] None
       [Node static (CHR ''a'') ''a'' [] None
          [Node static (CHR ''b'') ''b'' [] (Some 1) [] None,
           Node static (CHR ''c'') ''c'' [] (Some 2) [] None] None] None)) \<and>
   sibling_disjoint (Node static zeroByte [] [] None
       [Node static (CHR ''a'') ''a'' [] None
          [Node static (CHR ''b'') ''b'' [] (Some (1::nat)) [] None,
           Node static (CHR ''c'') ''c'' [] (Some 2) [] None] None] None)"
proof -
  let ?n = "Node static zeroByte [] [] None
       [Node static (CHR ''a'') ''a'' [] None
          [Node static (CHR ''b'') ''b'' [] (Some (1::nat)) [] None,
           Node static (CHR ''c'') ''c'' [] (Some 2) [] None] None] None"
  have t: "inserts newTree [(''/ab'', Some (1::nat)), (''/ac'', Some 2)] = Inr (Tree ?n)"
    by (simp add: eval_defs splitChild_def)
  from sibling_first_bytes_disjoint[OF t] have "sibling_disjoint ?n" by simp
  with t show ?thesis by blast
qed

subsection \<open>Registering a pattern again\<close>

lemma plain_prefixes_iff:
  "plain_prefixes n \<longleftrightarrow>
     (\<forall>c\<in>set (children n). prefix c \<noteq> [] \<and> CHR '':'' \<notin> set (prefix c) \<and> plain_prefixes c) \<and>
     (\<forall>pc. paramChild n = Some pc \<longrightarrow> plain_prefixes pc)"
  by (cases n) (auto split: option.splits)

lemma colons_after_append:
  "colons_after p (xs @ ys) \<longleftrightarrow> colons_after p xs \<and> colons_after (last (p # xs)) ys"
  by (induction xs arbitrary: p) auto

lemma colons_after_plain: "CHR '':'' \<notin> set xs \<Longrightarrow> colons_after p xs"
  by (induction xs arbitrary: p) auto

lemma colons_after_noslash:
  "colons_after p xs \<Longrightarrow> CHR ''/'' \<notin> set xs \<Longrightarrow> p \<noteq> CHR ''/'' \<Longrightarrow> CHR '':'' \<notin> set xs"
  by (induction xs arbitrary: p) auto

lemma colons_segment:
  assumes "colons_after (CHR ''/'') seg" "CHR ''/'' \<notin> set seg" "\<not> (seg \<noteq> [] \<and> hd seg = CHR '':'')"
  shows "CHR '':'' \<notin> set seg"
proof (cases seg)
  case Nil then show ?thesis by simp
next
  case (Cons x xs)
  with assms have "x \<noteq> CHR '':''" "x \<noteq> CHR ''/''" "colons_after x xs" "CHR ''/'' \<notin> set xs" by auto
  then show ?thesis using colons_after_noslash[of x xs] Cons by auto
qed

lemma colons_TrimPrefix: "colons_lead path \<Longrightarrow> colons_after (CHR ''/'') (TrimPrefix path ''/'')"
  by (cases path) (auto simp: colons_lead_def TrimPrefix_def HasPrefix_def)

lemma colons_step:
  assumes "colons_lead path" "nextSegment (TrimPrefix path ''/'') = (seg, rm)"
  shows "colons_after (CHR ''/'') seg" "rm \<noteq> [] \<Longrightarrow> colons_lead rm"
    "\<not> (seg \<noteq> [] \<and> hd seg = CHR '':'') \<Longrightarrow> CHR '':'' \<notin> set seg"
    "\<not> (seg \<noteq> [] \<and> hd seg = CHR '':'') \<Longrightarrow> colons_lead (''/'' @ drop k seg @ rm)"
proof -
  have q: "TrimPrefix path ''/'' = seg @ rm" using nextSegment_append[OF assms(2)] .
  have c: "colons_after (CHR ''/'') (seg @ rm)" using colons_TrimPrefix[OF assms(1)] q by simp
  then show s: "colons_after (CHR ''/'') seg" by (simp add: colons_after_append)
  have r: "rm \<noteq> [] \<Longrightarrow> colons_lead rm"
  proof -
    assume ne: "rm \<noteq> []"
    then obtain t where t: "rm = CHR ''/'' # t"
      using nextSegment_remaining[OF assms(2)] by (cases rm) auto
    with c show "colons_lead rm" by (simp add: colons_after_append colons_lead_def)
  qed
  then show "rm \<noteq> [] \<Longrightarrow> colons_lead rm" .
  have ns: "CHR ''/'' \<notin> set seg" using nextSegment_segment[OF assms(2)] .
  show p: "\<not> (seg \<noteq> [] \<and> hd seg = CHR '':'') \<Longrightarrow> CHR '':'' \<notin> set seg"
    using colons_segment[OF s ns] by simp
  show "\<not> (seg \<noteq> [] \<and> hd seg = CHR '':'') \<Longrightarrow> colons_lead (''/'' @ drop k seg @ rm)"
  proof -
    assume st: "\<not> (seg \<noteq> [] \<and> hd seg = CHR '':'')"
    have d: "CHR '':'' \<notin> set (drop k seg)" using p[OF st] by (auto dest: in_set_dropD)
    show ?thesis
    proof (cases "rm = []")
      case True
      with d show ?thesis by (simp add: colons_lead_def colons_after_plain)
    next
      case False
      then obtain t where t: "rm = CHR ''/'' # t"
        using nextSegment_remaining[OF assms(2)] by (cases rm) auto
      with r[OF False] have "colons_after (CHR ''/'') t" by (simp add: colons_lead_def)
      with d t show ?thesis
        by (simp add: colons_lead_def colons_after_append colons_after_plain)
    qed
  qed
qed

lemma pp_set_route: "plain_prefixes n \<Longrightarrow> plain_prefixes (set_route n r)"
  by (cases n) simp

lemma pp_set_paramChild:
  "plain_prefixes n \<Longrightarrow> plain_prefixes pc \<Longrightarrow> plain_prefixes (set_paramChild n (Some pc))"
  by (cases n) simp

lemma pp_paramSlot: "plain_prefixes n \<Longrightarrow> plain_prefixes (paramSlot n seg)"
  by (cases n) (auto simp: paramSlot_def split: option.splits)

lemma pp_child:
  "plain_prefixes n \<Longrightarrow> i < length (children n) \<Longrightarrow>
     plain_prefixes (children n ! i) \<and> prefix (children n ! i) \<noteq> [] \<and>
     CHR '':'' \<notin> set (prefix (children n ! i))"
  by (auto simp: plain_prefixes_iff[of n])

lemma pp_update_child:
  assumes "plain_prefixes n" "plain_prefixes c'" "prefix c' \<noteq> []" "CHR '':'' \<notin> set (prefix c')"
  shows "plain_prefixes (set_children n ((children n)[i := c']))"
proof -
  have "\<forall>c \<in> set ((children n)[i := c']). c = c' \<or> c \<in> set (children n)"
    using set_update_subset_insert[of "children n" i c'] by auto
  then show ?thesis
    using assms by (subst plain_prefixes_iff) (auto simp: plain_prefixes_iff[of n])
qed

lemma pp_append_child:
  assumes "plain_prefixes n" "plain_prefixes c'" "prefix c' \<noteq> []" "CHR '':'' \<notin> set (prefix c')"
  shows "plain_prefixes (set_children n (children n @ [c']))"
  using assms by (subst plain_prefixes_iff) (auto simp: plain_prefixes_iff[of n])

lemma pp_splitChild:
  assumes "plain_prefixes c" "k < length (prefix c)" "CHR '':'' \<notin> set (prefix c)"
  shows "plain_prefixes (splitChild c k)"
  using assms
  by (subst plain_prefixes_iff)
    (auto simp: plain_prefixes_iff[of c] plain_prefixes_iff[of "set_prefix c x y" for x y]
      dest: in_set_dropD)

lemma node_insert_plain_prefixes:
  assumes "node_insert n path r = Inr n'" "plain_prefixes n" "colons_lead path"
  shows "plain_prefixes n'"
  using assms
proof (induction rule: node_insert_cases_induct)
  case (root n r)
  then show ?case by (simp add: pp_set_route)
next
  case (param_last n path r seg)
  then show ?case by (simp add: pp_set_paramChild pp_set_route pp_paramSlot)
next
  case (param_more n path r seg rm pc')
  then show ?case using colons_step(2)[OF param_more(9,2)]
    by (simp add: pp_set_paramChild pp_paramSlot)
next
  case (exact_last n path r seg i)
  then show ?case
    using overlap_facts[OF exact_last(4)] pp_child[of n i]
    by (intro pp_update_child) (simp_all add: pp_set_route)
next
  case (exact_more n path r seg rm i c')
  then show ?case
    using overlap_facts[OF exact_more(4)] pp_child[of n i] node_insert_fields[OF exact_more(8)]
      colons_step(2)[OF exact_more(11,2)]
    by (intro pp_update_child) simp_all
next
  case (longer n path r seg rm i c')
  then show ?case
    using overlap_facts[OF longer(4)] pp_child[of n i] node_insert_fields[OF longer(7)]
      colons_step(4)[OF longer(10,2)]
    by (intro pp_update_child) simp_all
next
  case (split_last n path r seg i k)
  then show ?case
    using overlap_facts[OF split_last(4)] pp_child[of n i] split_len[OF split_last(5,6)]
    by (intro pp_update_child) (auto simp: pp_set_route pp_splitChild dest: in_set_takeD)
next
  case (split_more n path r seg rm i k s')
  then show ?case
    using overlap_facts[OF split_more(4)] pp_child[of n i] split_len[OF split_more(5,6)]
      node_insert_fields[OF split_more(9)] colons_step(2)[OF split_more(12,2)]
    by (intro pp_update_child) (auto simp: pp_splitChild dest: in_set_takeD)
next
  case (split_longer n path r seg rm i k s')
  then show ?case
    using overlap_facts[OF split_longer(4)] pp_child[of n i] split_len[OF split_longer(5,6)]
      node_insert_fields[OF split_longer(8)] colons_step(4)[OF split_longer(11,2)]
    by (intro pp_update_child) (auto simp: pp_splitChild dest: in_set_takeD)
next
  case (new_last n path r seg c cs)
  then show ?case
    using colons_step(3)[OF new_last(7,2)]
    by (intro pp_append_child) (simp_all add: pp_set_route)
next
  case (new_more n path r seg rm c cs c')
  then show ?case
    using colons_step(3)[OF new_more(10,2)] colons_step(2)[OF new_more(10,2)]
      node_insert_fields[OF new_more(7)]
    by (intro pp_append_child) simp_all
qed

lemma findMatch_update:
  assumes "findOverlap seg cs = Some i" "\<forall>c\<in>set cs. prefix c \<noteq> []"
    "nType c' = static" "HasPrefix seg (prefix c')"
  shows "findMatch seg (cs[i := c']) = Some i"
  using assms
proof (induction cs arbitrary: i)
  case Nil then show ?case by simp
next
  case (Cons a cs)
  show ?case
  proof (cases "nType a = static \<and> longestCommonPrefix seg (prefix a) \<noteq> 0")
    case True
    with Cons.prems have "i = 0" by simp
    with Cons.prems show ?thesis using HasPrefix_len[of seg "prefix c'"] by auto
  next
    case False
    with Cons.prems obtain j where j: "findOverlap seg cs = Some j" "i = Suc j"
      by (auto split: if_splits)
    have "\<not> (nType a = static \<and> HasPrefix seg (prefix a))"
      using False Cons.prems(2) HasPrefix_lcp_pos[of seg "prefix a"] by auto
    with j Cons.IH[OF j(1)] Cons.prems show ?thesis by auto
  qed
qed

lemma findMatch_skip:
  assumes "findOverlap seg cs = None" "\<forall>c\<in>set cs. prefix c \<noteq> []"
  shows "findMatch seg cs = None"
  using assms
proof (induction cs)
  case Nil then show ?case by simp
next
  case (Cons a cs)
  then have "\<not> (nType a = static \<and> HasPrefix seg (prefix a))"
    using HasPrefix_lcp_pos[of seg "prefix a"] by (auto split: if_splits)
  with Cons show ?case by (auto split: if_splits)
qed

lemma findMatch_append:
  "findMatch seg cs = None \<Longrightarrow> nType c' = static \<Longrightarrow> HasPrefix seg (prefix c') \<Longrightarrow>
     findMatch seg (cs @ [c']) = Some (length cs)"
  using HasPrefix_len[of seg "prefix c'"]
  by (induction cs) (auto split: if_splits)

lemma findMatch_param:
  assumes "\<forall>c\<in>set cs. prefix c \<noteq> [] \<and> CHR '':'' \<notin> set (prefix c)" "seg \<noteq> []" "hd seg = CHR '':''"
  shows "findMatch seg cs = None"
  using assms
proof (induction cs)
  case Nil then show ?case by simp
next
  case (Cons a cs)
  have "\<not> HasPrefix seg (prefix a)"
  proof
    assume h: "HasPrefix seg (prefix a)"
    from Cons.prems(1) obtain x xs where p: "prefix a = x # xs" by (cases "prefix a") auto
    with h Cons.prems(2,3) have "x = CHR '':''" by (cases seg) (auto simp: HasPrefix_def)
    with p Cons.prems(1) show False by auto
  qed
  with Cons show ?case by auto
qed

lemma pp_prefixes: "plain_prefixes n \<Longrightarrow> \<forall>c\<in>set (children n). prefix c \<noteq> []"
  by (auto simp: plain_prefixes_iff[of n])

lemma pp_prefixes_colon:
  "plain_prefixes n \<Longrightarrow> \<forall>c\<in>set (children n). prefix c \<noteq> [] \<and> CHR '':'' \<notin> set (prefix c)"
  by (auto simp: plain_prefixes_iff[of n])

lemma overlap_seg: "findOverlap seg cs = Some i \<Longrightarrow> seg \<noteq> []"
  using findOverlap_Some[of seg cs i] by (cases seg) auto

lemma node_insert_then_search:
  assumes "node_insert n path r = Inr n'" "plain_prefixes n" "colons_lead path"
  shows "fst (node_search n' path ps) = r"
  using assms
proof (induction arbitrary: ps rule: node_insert_cases_induct)
  case (root n r)
  then show ?case by (simp add: node_search.simps)
next
  case (param_last n path r seg)
  have "findMatch seg (children n) = None"
    using findMatch_param[OF pp_prefixes_colon[OF param_last(5)] param_last(3,4)] .
  then show ?case
    using search_param[OF param_last(1) segment_path_nonempty[OF param_last(2,3)] param_last(2),
        of "set_paramChild n (Some (set_route (paramSlot n seg) r))" "set_route (paramSlot n seg) r" ps]
    by simp
next
  case (param_more n path r seg rm pc')
  have "findMatch seg (children n) = None"
    using findMatch_param[OF pp_prefixes_colon[OF param_more(8)] param_more(3,4)] .
  moreover have "\<And>ps. fst (node_search pc' rm ps) = r"
    using param_more(7)[OF pp_paramSlot[OF param_more(8)] colons_step(2)[OF param_more(9,2) param_more(5)]] .
  ultimately show ?case
    using search_param[OF param_more(1) segment_path_nonempty[OF param_more(2,3)] param_more(2),
        of "set_paramChild n (Some pc')" pc' ps] param_more(5)
    by simp
next
  case (exact_last n path r seg i)
  let ?c' = "set_route (children n ! i) r"
  note o = overlap_facts[OF exact_last(4)]
  have hp: "HasPrefix seg (prefix ?c')" using exact_last(5) by (simp add: lcp_full_iff)
  have fm: "findMatch seg ((children n)[i := ?c']) = Some i"
    using findMatch_update[OF exact_last(4) pp_prefixes[OF exact_last(7)] _ hp] o by simp
  show ?case
    using search_static[OF exact_last(1) segment_path_nonempty[OF exact_last(2) overlap_seg[OF exact_last(4)]] exact_last(2),
        of "set_children n ((children n)[i := ?c'])" i ps] fm o(1) exact_last(6)
    by simp
next
  case (exact_more n path r seg rm i c')
  note o = overlap_facts[OF exact_more(4)]
  note f = node_insert_fields[OF exact_more(8)]
  have hp: "HasPrefix seg (prefix c')" using exact_more(5) f by (simp add: lcp_full_iff)
  have fm: "findMatch seg ((children n)[i := c']) = Some i"
    using findMatch_update[OF exact_more(4) pp_prefixes[OF exact_more(10)] _ hp] o f by simp
  have ih: "\<And>ps. fst (node_search c' rm ps) = r"
    using exact_more(9) pp_child[OF exact_more(10) o(1)] colons_step(2)[OF exact_more(11,2) exact_more(7)]
    by simp
  show ?case
    using search_static[OF exact_more(1) segment_path_nonempty[OF exact_more(2) overlap_seg[OF exact_more(4)]] exact_more(2),
        of "set_children n ((children n)[i := c'])" i ps] fm o(1) exact_more(6,7) f ih
    by simp
next
  case (longer n path r seg rm i c')
  note o = overlap_facts[OF longer(4)]
  note f = node_insert_fields[OF longer(7)]
  have hp: "HasPrefix seg (prefix c')" using longer(5) f by (simp add: lcp_full_iff)
  have fm: "findMatch seg ((children n)[i := c']) = Some i"
    using findMatch_update[OF longer(4) pp_prefixes[OF longer(9)] _ hp] o f by simp
  have ih: "\<And>ps. fst (node_search c' (''/'' @ drop (length (prefix (children n ! i))) seg @ rm) ps) = r"
    using longer(8) pp_child[OF longer(9) o(1)] colons_step(4)[OF longer(10,2) longer(3)]
    by simp
  show ?case
    using search_static[OF longer(1) segment_path_nonempty[OF longer(2) overlap_seg[OF longer(4)]] longer(2),
        of "set_children n ((children n)[i := c'])" i ps] fm o(1) longer(6) f ih
    by simp
next
  case (split_last n path r seg i k)
  let ?c' = "set_route (splitChild (children n ! i) k) r"
  note o = overlap_facts[OF split_last(4)]
  have pk: "prefix ?c' = take k seg" using lcp_take[of seg "prefix (children n ! i)"] split_last(5) by simp
  have hp: "HasPrefix seg (prefix ?c')" using pk HasPrefix_take by simp
  have fm: "findMatch seg ((children n)[i := ?c']) = Some i"
    using findMatch_update[OF split_last(4) pp_prefixes[OF split_last(8)] _ hp] by simp
  show ?case
    using search_static[OF split_last(1) segment_path_nonempty[OF split_last(2) overlap_seg[OF split_last(4)]] split_last(2),
        of "set_children n ((children n)[i := ?c'])" i ps] fm o(1) pk split_last(7)
      split_len[OF split_last(5,6)]
    by (simp add: min_def)
next
  case (split_more n path r seg rm i k s')
  note o = overlap_facts[OF split_more(4)]
  note f = node_insert_fields[OF split_more(9)]
  note pc = pp_child[OF split_more(11) o(1)]
  have pk: "prefix s' = take k seg" using lcp_take[of seg "prefix (children n ! i)"] split_more(5) f by simp
  have hp: "HasPrefix seg (prefix s')" using pk HasPrefix_take by simp
  have fm: "findMatch seg ((children n)[i := s']) = Some i"
    using findMatch_update[OF split_more(4) pp_prefixes[OF split_more(11)] _ hp] f by simp
  have "plain_prefixes (splitChild (children n ! i) k)"
    using pp_splitChild[of "children n ! i" k] pc split_len[OF split_more(5,6)] by simp
  then have ih: "\<And>ps. fst (node_search s' rm ps) = r"
    using split_more(10) colons_step(2)[OF split_more(12,2) split_more(8)] by simp
  show ?case
    using search_static[OF split_more(1) segment_path_nonempty[OF split_more(2) overlap_seg[OF split_more(4)]] split_more(2),
        of "set_children n ((children n)[i := s'])" i ps] fm o(1) pk split_more(7,8) ih
      split_len[OF split_more(5,6)]
    by (simp add: min_def)
next
  case (split_longer n path r seg rm i k s')
  note o = overlap_facts[OF split_longer(4)]
  note f = node_insert_fields[OF split_longer(8)]
  note pc = pp_child[OF split_longer(10) o(1)]
  have kl: "k \<le> length seg" using split_longer(5) lcp_le1 by simp
  have pk: "prefix s' = take k seg" using lcp_take[of seg "prefix (children n ! i)"] split_longer(5) f by simp
  have hp: "HasPrefix seg (prefix s')" using pk HasPrefix_take by simp
  have fm: "findMatch seg ((children n)[i := s']) = Some i"
    using findMatch_update[OF split_longer(4) pp_prefixes[OF split_longer(10)] _ hp] f by simp
  have "plain_prefixes (splitChild (children n ! i) k)"
    using pp_splitChild[of "children n ! i" k] pc split_len[OF split_longer(5,6)] by simp
  then have ih: "\<And>ps. fst (node_search s' (''/'' @ drop k seg @ rm) ps) = r"
    using split_longer(9) colons_step(4)[OF split_longer(11,2) split_longer(3)] by simp
  show ?case
    using search_static[OF split_longer(1) segment_path_nonempty[OF split_longer(2) overlap_seg[OF split_longer(4)]] split_longer(2),
        of "set_children n ((children n)[i := s'])" i ps] fm o(1) pk split_longer(7) kl ih
    by (simp add: min_def)
next
  case (new_last n path r seg c cs)
  let ?c' = "set_route (Node static c seg [] None [] None) r"
  have fm: "findMatch seg (children n @ [?c']) = Some (length (children n))"
    using findMatch_append[OF findMatch_skip[OF new_last(4) pp_prefixes[OF new_last(6)]], of ?c']
    by (simp add: HasPrefix_refl)
  show ?case
    using search_static[OF new_last(1) segment_path_nonempty[OF new_last(2)] new_last(2),
        of "set_children n (children n @ [?c'])" "length (children n)" ps] fm new_last(5)
    by simp
next
  case (new_more n path r seg rm c cs c')
  note f = node_insert_fields[OF new_more(7)]
  have fm: "findMatch seg (children n @ [c']) = Some (length (children n))"
    using findMatch_append[OF findMatch_skip[OF new_more(4) pp_prefixes[OF new_more(9)]], of c'] f
    by (simp add: HasPrefix_refl)
  have "plain_prefixes (Node static c seg [] None [] None)" by simp
  then have ih: "\<And>ps. fst (node_search c' rm ps) = r"
    using new_more(8) colons_step(2)[OF new_more(10,2) new_more(6)] by simp
  show ?case
    using search_static[OF new_more(1) segment_path_nonempty[OF new_more(2)] new_more(2),
        of "set_children n (children n @ [c'])" "length (children n)" ps] fm new_more(5,6) f ih
    by simp
qed

lemma colons_lead_normPath: "colons_lead (normPath p) = colons_lead p"
  by (cases p) (auto simp: normPath_def colons_lead_def Let_def)

lemma inserts_plain_prefixes:
  "inserts t xs = Inr t' \<Longrightarrow> plain_prefixes (root t) \<Longrightarrow>
     \<forall>(q, r)\<in>set xs. colons_lead q \<Longrightarrow> plain_prefixes (root t')"
proof (induction xs arbitrary: t)
  case Nil then show ?case by simp
next
  case (Cons a xs)
  obtain p r where a: "a = (p, r)" by force
  with Cons.prems obtain t1 where t1: "tree_insert t p r = Inr t1" "inserts t1 xs = Inr t'"
    by (auto split: sum.splits)
  have "plain_prefixes (root t1)"
    using node_insert_plain_prefixes[OF tree_insert_root[OF t1(1)] Cons.prems(2)]
      Cons.prems(3) a by (simp add: colons_lead_normPath)
  with Cons.IH[OF t1(2)] Cons.prems(3) show ?case by simp
qed

text \<open>
  C7. The claim is that for every tree and every pattern, registering the pattern twice
  makes the search for it return the second route. The code misses it where a colon stands
  inside a segment: after \<^verbatim>\<open>/a:b\<close> and \<^verbatim>\<open>/ax\<close> the node \<^verbatim>\<open>a\<close> has the static child
  \<^verbatim>\<open>:b\<close>; the insertion of \<^verbatim>\<open>/a:bc\<close> cuts the segment after \<^verbatim>\<open>a\<close>, takes the rest
  \<^verbatim>\<open>:bc\<close> for a parameter and stores the route under the parameter child of \<^verbatim>\<open>a\<close>; the
  search for \<^verbatim>\<open>/a:bc\<close> goes into the static child \<^verbatim>\<open>:b\<close> and returns no route, however
  often the pattern is registered. The evaluation of the code on that input:
\<close>

theorem reregistration_fails:
  "(case inserts (newTree :: nat tree)
           [(''/a:b'', Some 0), (''/ax'', Some 1), (''/a:bc'', Some 2), (''/a:bc'', Some 3)] of
      Inl e \<Rightarrow> False
    | Inr t \<Rightarrow> tree_search t ''/a:bc'' = (None, None))"
  by (simp add: eval_defs)

text \<open>
  Away from that defect the registration is last-write-wins. For every tree built from the
  empty tree by patterns in which a colon occurs only as the first byte of a segment, and
  every such pattern \<open>p\<close>: if \<open>p\<close> is registered with \<open>r1\<close> and then again with \<open>r2\<close>
  (both insertions returning), the search for \<open>p\<close>'s path returns \<open>r2\<close>.
\<close>

theorem reregistration_last_wins:
  assumes "inserts newTree xs = Inr t" "\<forall>(q, r)\<in>set xs. colons_lead q" "colons_lead p"
    "tree_insert t p r1 = Inr t1" "tree_insert t1 p r2 = Inr t2"
  shows "fst (tree_search t2 p) = r2"
proof -
  have "plain_prefixes (root (newTree :: 'a tree))" by (simp add: newTree_def)
  then have "plain_prefixes (root t)" using inserts_plain_prefixes[OF assms(1) _ assms(2)] by simp
  then have "plain_prefixes (root t1)"
    using node_insert_plain_prefixes[OF tree_insert_root[OF assms(4)]] assms(3)
    by (simp add: colons_lead_normPath)
  then have "fst (node_search (root t2) (normPath p) None) = r2"
    using node_insert_then_search[OF tree_insert_root[OF assms(5)]] assms(3)
    by (simp add: colons_lead_normPath)
  then show ?thesis by (simp add: tree_search_normPath)
qed

theorem reregistration_last_wins_witness:
  "\<exists>t t1 t2. inserts newTree [(''/users/me'', Some (0::nat))] = Inr t \<and>
     tree_insert t ''/users/:id'' (Some 1) = Inr t1 \<and>
     tree_insert t1 ''/users/:id'' (Some 2) = Inr t2 \<and>
     fst (tree_search t2 ''/users/:id'') = Some 2"
proof -
  obtain t where t: "inserts newTree [(''/users/me'', Some (0::nat))] = Inr t"
    by (simp add: eval_defs)
  obtain t1 where t1: "tree_insert t ''/users/:id'' (Some 1) = Inr t1"
    using t by (auto simp add: eval_defs)
  obtain t2 where t2: "tree_insert t1 ''/users/:id'' (Some 2) = Inr t2"
    using t t1 by (auto simp add: eval_defs)
  have c: "\<forall>(q, r)\<in>set [(''/users/me'', Some (0::nat))]. colons_lead q"
    by (simp add: colons_lead_def)
  have p: "colons_lead ''/users/:id''" by (simp add: colons_lead_def)
  from reregistration_last_wins[OF t c p t1 t2] t t1 t2 show ?thesis by blast
qed

subsection \<open>Lazy parameter map\<close>

lemma node_routes_eq:
  "node_routes n = set_option (route n) \<union> (\<Union>c\<in>set (children n). node_routes c) \<union>
     (case paramChild n of None \<Rightarrow> {} | Some c \<Rightarrow> node_routes c)"
  by (cases n) simp

lemma param_routes_eq:
  "param_routes n = (\<Union>c\<in>set (children n). param_routes c) \<union>
     (case paramChild n of None \<Rightarrow> {} | Some c \<Rightarrow> node_routes c)"
  by (cases n) simp

lemma Union_update:
  "(\<Union>c\<in>set (cs[i := c']). f c) \<subseteq> (\<Union>c\<in>set cs. f c) \<union> f c'"
  using set_update_subset_insert[of cs i c'] by auto

lemma nr_child: "i < length (children n) \<Longrightarrow> node_routes (children n ! i) \<subseteq> node_routes n"
  by (cases n) (auto intro: nth_mem)

lemma pr_child: "i < length (children n) \<Longrightarrow> param_routes (children n ! i) \<subseteq> param_routes n"
  by (cases n) (auto intro: nth_mem)

lemma nr_paramChild: "paramChild n = Some pc \<Longrightarrow> node_routes pc \<subseteq> param_routes n"
  by (cases n) auto

lemma nr_paramSlot: "node_routes (paramSlot n seg) \<subseteq> param_routes n"
  by (cases n) (auto simp: paramSlot_def split: option.splits)

lemma nr_set_route: "node_routes (set_route n r) \<subseteq> node_routes n \<union> set_option r"
  by (cases n) auto

lemma pr_set_route: "param_routes (set_route n r) = param_routes n"
  by (cases n) auto

lemma nr_splitChild: "node_routes (splitChild c k) = node_routes c"
  by (cases c) (simp add: splitChild_def Let_def)

lemma pr_splitChild: "param_routes (splitChild c k) = param_routes c"
  by (cases c) (simp add: splitChild_def Let_def)

lemma nr_set_children:
  "node_routes (set_children n cs) = set_option (route n) \<union> (\<Union>c\<in>set cs. node_routes c) \<union>
     (case paramChild n of None \<Rightarrow> {} | Some c \<Rightarrow> node_routes c)"
  by (cases n) simp

lemma pr_set_children:
  "param_routes (set_children n cs) = (\<Union>c\<in>set cs. param_routes c) \<union>
     (case paramChild n of None \<Rightarrow> {} | Some c \<Rightarrow> node_routes c)"
  by (cases n) simp

lemma nr_set_paramChild_eq:
  "node_routes (set_paramChild n (Some pc)) =
     set_option (route n) \<union> (\<Union>c\<in>set (children n). node_routes c) \<union> node_routes pc"
  by (cases n) simp

lemma pr_set_paramChild_eq:
  "param_routes (set_paramChild n (Some pc)) =
     (\<Union>c\<in>set (children n). param_routes c) \<union> node_routes pc"
  by (cases n) simp

lemma nr_parts:
  "set_option (route n) \<subseteq> node_routes n" "(\<Union>c\<in>set (children n). node_routes c) \<subseteq> node_routes n"
  "(case paramChild n of None \<Rightarrow> {} | Some c \<Rightarrow> node_routes c) \<subseteq> node_routes n"
  by (cases n; auto)+

lemma pr_parts:
  "(\<Union>c\<in>set (children n). param_routes c) \<subseteq> param_routes n"
  "(case paramChild n of None \<Rightarrow> {} | Some c \<Rightarrow> node_routes c) \<subseteq> param_routes n"
  by (cases n; auto)+

lemma nr_update:
  assumes "i < length (children n)" "node_routes c' \<subseteq> node_routes (children n ! i) \<union> R"
  shows "node_routes (set_children n ((children n)[i := c'])) \<subseteq> node_routes n \<union> R"
proof -
  have "node_routes (children n ! i) \<subseteq> node_routes n" using nr_child[OF assms(1)] .
  with assms(2) have c: "node_routes c' \<subseteq> node_routes n \<union> R" by blast
  have "(\<Union>c\<in>set ((children n)[i := c']). node_routes c) \<subseteq> node_routes n \<union> R"
    using Union_update[of node_routes "children n" i c'] nr_parts(2)[of n] c by blast
  then show ?thesis
    unfolding nr_set_children using nr_parts(1,3)[of n] by blast
qed

lemma pr_update:
  assumes "i < length (children n)" "param_routes c' \<subseteq> param_routes (children n ! i) \<union> R"
  shows "param_routes (set_children n ((children n)[i := c'])) \<subseteq> param_routes n \<union> R"
proof -
  have "param_routes (children n ! i) \<subseteq> param_routes n" using pr_child[OF assms(1)] .
  with assms(2) have c: "param_routes c' \<subseteq> param_routes n \<union> R" by blast
  have "(\<Union>c\<in>set ((children n)[i := c']). param_routes c) \<subseteq> param_routes n \<union> R"
    using Union_update[of param_routes "children n" i c'] pr_parts(1)[of n] c by blast
  then show ?thesis
    unfolding pr_set_children using pr_parts(2)[of n] by blast
qed

lemma nr_append:
  assumes "node_routes c' \<subseteq> R"
  shows "node_routes (set_children n (children n @ [c'])) \<subseteq> node_routes n \<union> R"
  unfolding nr_set_children using assms nr_parts[of n] by auto

lemma pr_append:
  assumes "param_routes c' \<subseteq> R"
  shows "param_routes (set_children n (children n @ [c'])) \<subseteq> param_routes n \<union> R"
  unfolding pr_set_children using assms pr_parts[of n] by auto

lemma nr_set_paramChild:
  assumes "node_routes pc' \<subseteq> node_routes (paramSlot n seg) \<union> R"
  shows "node_routes (set_paramChild n (Some pc')) \<subseteq> node_routes n \<union> R"
proof -
  have "node_routes (paramSlot n seg) \<subseteq> node_routes n"
    by (cases n) (auto simp: paramSlot_def split: option.splits)
  with assms show ?thesis
    unfolding nr_set_paramChild_eq using nr_parts(1,2)[of n] by blast
qed

lemma pr_set_paramChild:
  assumes "node_routes pc' \<subseteq> node_routes (paramSlot n seg) \<union> R"
  shows "param_routes (set_paramChild n (Some pc')) \<subseteq> param_routes n \<union> R"
  unfolding pr_set_paramChild_eq using assms nr_paramSlot[of n seg] pr_parts(1)[of n] by blast

lemma node_insert_routes:
  assumes "node_insert n path r = Inr n'"
  shows "node_routes n' \<subseteq> node_routes n \<union> set_option r"
  using assms
proof (induction rule: node_insert_cases_induct)
  case (root n r)
  then show ?case by (rule nr_set_route)
next
  case (param_last n path r seg)
  then show ?case using nr_set_route by (intro nr_set_paramChild)
next
  case (param_more n path r seg rm pc')
  then show ?case by (intro nr_set_paramChild)
next
  case (exact_last n path r seg i)
  then show ?case using overlap_facts(1)[OF exact_last(4)] nr_set_route by (intro nr_update)
next
  case (exact_more n path r seg rm i c')
  then show ?case using overlap_facts(1)[OF exact_more(4)] by (intro nr_update)
next
  case (longer n path r seg rm i c')
  then show ?case using overlap_facts(1)[OF longer(4)] by (intro nr_update)
next
  case (split_last n path r seg i k)
  then show ?case
    using overlap_facts(1)[OF split_last(4)] nr_set_route[of "splitChild (children n ! i) k" r]
    by (intro nr_update) (simp_all add: nr_splitChild)
next
  case (split_more n path r seg rm i k s')
  then show ?case
    using overlap_facts(1)[OF split_more(4)] by (intro nr_update) (simp_all add: nr_splitChild)
next
  case (split_longer n path r seg rm i k s')
  then show ?case
    using overlap_facts(1)[OF split_longer(4)] by (intro nr_update) (simp_all add: nr_splitChild)
next
  case (new_last n path r seg c cs)
  then show ?case by (intro nr_append) simp
next
  case (new_more n path r seg rm c cs c')
  then show ?case by (intro nr_append) simp
qed

lemma set_TrimPrefix: "set (TrimPrefix path ''/'') \<subseteq> set path"
  by (auto simp: TrimPrefix_def dest: in_set_dropD)

lemma colon_in_path:
  assumes "nextSegment (TrimPrefix path ''/'') = (seg, rm)"
  shows "CHR '':'' \<in> set seg \<Longrightarrow> CHR '':'' \<in> set path"
    "CHR '':'' \<in> set rm \<Longrightarrow> CHR '':'' \<in> set path"
    "CHR '':'' \<in> set (''/'' @ drop k seg @ rm) \<Longrightarrow> CHR '':'' \<in> set path"
  using nextSegment_append[OF assms] set_TrimPrefix[of path] by (auto dest: in_set_dropD)

lemma colon_routes_mono:
  "(CHR '':'' \<in> set p \<Longrightarrow> CHR '':'' \<in> set path) \<Longrightarrow> colon_routes p r \<subseteq> colon_routes path r"
  by (auto simp: colon_routes_def)

lemma colon_routes_sub:
  assumes "nextSegment (TrimPrefix path ''/'') = (seg, rm)"
  shows "colon_routes rm r \<subseteq> colon_routes path r"
    "colon_routes (''/'' @ drop k seg @ rm) r \<subseteq> colon_routes path r"
proof -
  show "colon_routes rm r \<subseteq> colon_routes path r"
    using colon_in_path(2)[OF assms] by (auto simp: colon_routes_def)
  show "colon_routes (''/'' @ drop k seg @ rm) r \<subseteq> colon_routes path r"
    using colon_in_path(3)[OF assms, of k] by (auto simp: colon_routes_def)
qed

lemma node_insert_param_routes:
  assumes "node_insert n path r = Inr n'"
  shows "param_routes n' \<subseteq> param_routes n \<union> colon_routes path r"
  using assms
proof (induction rule: node_insert_cases_induct)
  case (root n r)
  then show ?case by (simp add: pr_set_route)
next
  case (param_last n path r seg)
  then have "CHR '':'' \<in> set path" using colon_in_path(1)[OF param_last(2)] by (cases seg) auto
  then show ?case
    using nr_set_route[of "paramSlot n seg" r]
    by (intro pr_set_paramChild) (simp add: colon_routes_def)
next
  case (param_more n path r seg rm pc')
  then have "CHR '':'' \<in> set path" using colon_in_path(1)[OF param_more(2)] by (cases seg) auto
  then show ?case
    using node_insert_routes[OF param_more(6)]
    by (intro pr_set_paramChild) (simp add: colon_routes_def)
next
  case (exact_last n path r seg i)
  then show ?case
    using overlap_facts(1)[OF exact_last(4)] by (intro pr_update) (simp_all add: pr_set_route)
next
  case (exact_more n path r seg rm i c')
  then show ?case
    using overlap_facts(1)[OF exact_more(4)] colon_routes_sub[OF exact_more(2), where r = r]
    by (intro pr_update) auto
next
  case (longer n path r seg rm i c')
  then show ?case
    using overlap_facts(1)[OF longer(4)] colon_routes_sub[OF longer(2), where r = r]
    by (intro pr_update) auto
next
  case (split_last n path r seg i k)
  then show ?case
    using overlap_facts(1)[OF split_last(4)]
    by (intro pr_update) (simp_all add: pr_set_route pr_splitChild)
next
  case (split_more n path r seg rm i k s')
  then show ?case
    using overlap_facts(1)[OF split_more(4)] colon_routes_sub[OF split_more(2), where r = r]
    by (intro pr_update) (auto simp: pr_splitChild)
next
  case (split_longer n path r seg rm i k s')
  then show ?case
    using overlap_facts(1)[OF split_longer(4)] colon_routes_sub[OF split_longer(2), where r = r]
    by (intro pr_update) (auto simp: pr_splitChild)
next
  case (new_last n path r seg c cs)
  then show ?case by (intro pr_append) (simp add: pr_set_route)
next
  case (new_more n path r seg rm c cs c')
  then show ?case
    using colon_routes_sub[OF new_more(2), where r = r]
    by (intro pr_append) auto
qed

lemma node_search_route:
  "fst (node_search n path ps) = Some r \<Longrightarrow> r \<in> node_routes n"
proof (induction n path ps rule: node_search_cases_induct)
  case (here n path ps)
  then show ?case using nr_parts(1)[of n] by auto
next
  case (exact_last n path ps seg i)
  then show ?case
    using nr_child[OF match_facts[OF exact_last(4)]] nr_parts(1)[of "children n ! i"] by auto
next
  case (exact_more n path ps seg rm i)
  then show ?case using nr_child[OF match_facts[OF exact_more(4)]] by auto
next
  case (longer n path ps seg rm i)
  then show ?case using nr_child[OF match_facts[OF longer(4)]] by auto
next
  case (param_last n path ps seg pc)
  then show ?case using nr_parts(3)[of n] nr_parts(1)[of pc] by auto
next
  case (param_more n path ps seg rm pc)
  then show ?case using nr_parts(3)[of n] by auto
next
  case (none n path ps seg rm)
  then show ?case by simp
qed

lemma node_search_params:
  "fst (node_search n path ps) = Some r \<Longrightarrow>
     snd (node_search n path ps) = ps \<or> r \<in> param_routes n"
proof (induction n path ps rule: node_search_cases_induct)
  case (here n path ps)
  then show ?case by simp
next
  case (exact_last n path ps seg i)
  then show ?case by simp
next
  case (exact_more n path ps seg rm i)
  then show ?case using pr_child[OF match_facts[OF exact_more(4)]] by auto
next
  case (longer n path ps seg rm i)
  then show ?case using pr_child[OF match_facts[OF longer(4)]] by auto
next
  case (param_last n path ps seg pc)
  then show ?case using nr_paramChild[OF param_last(5)] nr_parts(1)[of pc] by auto
next
  case (param_more n path ps seg rm pc)
  then show ?case
    using nr_paramChild[OF param_more(5)] node_search_route[of pc rm _ r] by auto
next
  case (none n path ps seg rm)
  then show ?case by simp
qed

lemma node_search_bound:
  "snd (node_search n path ps) = ps \<or>
     (\<exists>m. snd (node_search n path ps) = Some m \<and> m \<noteq> Map.empty)"
proof (induction n path ps rule: node_search_cases_induct)
  case (param_last n path ps seg pc)
  then show ?case by (simp add: bind_param_def)
next
  case (param_more n path ps seg rm pc)
  then show ?case by (auto simp: bind_param_def)
qed simp_all

lemma colon_normPath: "CHR '':'' \<in> set (normPath p) \<longleftrightarrow> CHR '':'' \<in> set p"
  by (auto simp: normPath_def Let_def)

lemma inserts_param_routes:
  "inserts t xs = Inr t' \<Longrightarrow>
     param_routes (root t') \<subseteq>
       param_routes (root t) \<union> {r. \<exists>p. (p, Some r) \<in> set xs \<and> CHR '':'' \<in> set p}"
proof (induction xs arbitrary: t)
  case Nil then show ?case by simp
next
  case (Cons a xs)
  obtain p r where a: "a = (p, r)" by force
  with Cons.prems obtain t1 where t1: "tree_insert t p r = Inr t1" "inserts t1 xs = Inr t'"
    by (auto split: sum.splits)
  have "param_routes (root t1) \<subseteq> param_routes (root t) \<union> colon_routes (normPath p) r"
    using node_insert_param_routes[OF tree_insert_root[OF t1(1)]] .
  moreover have "colon_routes (normPath p) r \<subseteq> {r. \<exists>p. (p, Some r) \<in> set (a # xs) \<and> CHR '':'' \<in> set p}"
    using a by (auto simp: colon_routes_def colon_normPath split: if_splits)
  moreover have "{r. \<exists>p. (p, Some r) \<in> set xs \<and> CHR '':'' \<in> set p} \<subseteq>
      {r. \<exists>p. (p, Some r) \<in> set (a # xs) \<and> CHR '':'' \<in> set p}" by auto
  ultimately show ?case using Cons.IH[OF t1(2)] by blast
qed

text \<open>
  C9. The claim is that a route whose pattern has no parameter segment is never returned
  with a parameter map. The code misses it where a colon stands inside a segment:
  \<^verbatim>\<open>/a:b\<close> has the single segment \<^verbatim>\<open>a:b\<close>, which is static; registered after \<^verbatim>\<open>/a\<close>,
  the insertion cuts the segment after \<^verbatim>\<open>a\<close>, takes the rest \<^verbatim>\<open>:b\<close> for a parameter and
  stores the route under the parameter child of \<^verbatim>\<open>a\<close> with the key \<^verbatim>\<open>b\<close>; the search
  for \<^verbatim>\<open>/aX\<close> then returns that route together with a parameter map. The evaluation of
  the code on that input:
\<close>

theorem lazy_params_fails:
  "(case inserts (newTree :: nat tree) [(''/a'', Some 0), (''/a:b'', Some 1)] of
      Inl e \<Rightarrow> False
    | Inr t \<Rightarrow> tree_search t ''/aX'' = (Some 1, Some [''b'' \<mapsto> ''X''])) \<and>
   nextSegment (TrimPrefix ''/a:b'' ''/'') = (''a:b'', [])"
  by (simp add: eval_defs)

text \<open>
  Away from that defect the parameter map is lazy. In a tree built from the empty tree by
  a sequence of insertions, whenever the search returns a route that was registered only
  under patterns without any colon, the returned parameter map is nil; and a returned
  parameter map is never empty: it exists only when a parameter was bound on the way to
  the route.
\<close>

theorem lazy_params:
  assumes "inserts newTree xs = Inr t" "tree_search t q = (Some r, ps)"
  shows "((\<forall>p. (p, Some r) \<in> set xs \<longrightarrow> CHR '':'' \<notin> set p) \<longrightarrow> ps = None) \<and>
         (\<forall>m. ps = Some m \<longrightarrow> m \<noteq> Map.empty)"
proof -
  let ?q = "if q = [] then ''/'' else q"
  note s = tree_search_node[OF assms(2)]
  have "param_routes (root t) \<subseteq> {r. \<exists>p. (p, Some r) \<in> set xs \<and> CHR '':'' \<in> set p}"
    using inserts_param_routes[OF assms(1)] by (simp add: newTree_def)
  moreover have "ps = None \<or> r \<in> param_routes (root t)"
    using node_search_params[of "root t" ?q None r] s by simp
  ultimately have a: "(\<forall>p. (p, Some r) \<in> set xs \<longrightarrow> CHR '':'' \<notin> set p) \<longrightarrow> ps = None"
    by blast
  have b: "\<forall>m. ps = Some m \<longrightarrow> m \<noteq> Map.empty"
    using node_search_bound[of "root t" ?q None] s by auto
  from a b show ?thesis by simp
qed

theorem lazy_params_witness:
  "\<exists>t. inserts newTree [(''/users/:id'', Some (1::nat)), (''/users/me'', Some 2)] = Inr t \<and>
       tree_search t ''/users/me'' = (Some 2, None)"
proof -
  obtain t where t: "inserts newTree [(''/users/:id'', Some (1::nat)), (''/users/me'', Some 2)] = Inr t"
    by (simp add: eval_defs)
  then have "fst (tree_search t ''/users/me'') = Some 2" by (auto simp add: eval_defs)
  then obtain ps where s: "tree_search t ''/users/me'' = (Some 2, ps)"
    by (cases "tree_search t ''/users/me''") simp
  have "\<forall>p. (p, Some 2) \<in> set [(''/users/:id'', Some (1::nat)), (''/users/me'', Some 2)]
           \<longrightarrow> CHR '':'' \<notin> set p" by simp
  with lazy_params[OF t s] have "ps = None" by blast
  with t s show ?thesis by blast
qed

subsection \<open>What an insertion leaves as it was\<close>

text \<open>
  The insertion changes one slot of a node: the route, the parameter child, one static
  child, or a new static child at the end of the list. A search that goes through another
  slot is not affected; a search that goes through the same slot meets the insertion again
  one node further down. The lemmas below follow the two side by side.
\<close>

lemma findMatch_update_other:
  assumes "i < length cs"
    "\<not> (nType (cs ! i) = static \<and> HasPrefix seg (prefix (cs ! i)))"
    "\<not> (nType c' = static \<and> HasPrefix seg (prefix c'))"
  shows "findMatch seg (cs[i := c']) = findMatch seg cs \<and>
         (\<forall>j. findMatch seg cs = Some j \<longrightarrow> (cs[i := c']) ! j = cs ! j)"
  using assms
proof (induction cs arbitrary: i)
  case Nil then show ?case by simp
next
  case (Cons a cs)
  show ?case
  proof (cases i)
    case 0
    with Cons.prems show ?thesis by auto
  next
    case (Suc k)
    with Cons.prems Cons.IH[of k] show ?thesis by auto
  qed
qed

lemma findMatch_append_other:
  assumes "\<not> (nType c' = static \<and> HasPrefix seg (prefix c'))"
  shows "findMatch seg (cs @ [c']) = findMatch seg cs \<and>
         (\<forall>j. findMatch seg cs = Some j \<longrightarrow> (cs @ [c']) ! j = cs ! j)"
  using assms
proof (induction cs)
  case Nil then show ?case by auto
next
  case (Cons a cs)
  then show ?case by auto
qed

lemma search_root: "node_search n ''/'' ps = (route n, ps)"
  by (subst node_search.simps) simp

lemma steps_root: "param_steps n ''/'' = []"
  by (subst param_steps.simps) simp

lemma insert_root: "node_insert n ''/'' r = Inr (set_route n r)"
  by (subst node_insert.simps) simp

lemma search_here: "q = ''/'' \<or> q = [] \<Longrightarrow> node_search n q ps = (route n, ps)"
  by (subst node_search.simps) simp

lemma steps_here: "q = ''/'' \<or> q = [] \<Longrightarrow> param_steps n q = []"
  by (subst param_steps.simps) simp

lemma search_descend:
  assumes "path \<noteq> ''/''" "path \<noteq> []" "nextSegment (TrimPrefix path ''/'') = (seg, rm)"
    "findMatch seg (children n) = Some i"
  shows "node_search n path ps =
         node_search (children n ! i) (descend seg rm (length (prefix (children n ! i)))) ps"
    "param_steps n path =
         param_steps (children n ! i) (descend seg rm (length (prefix (children n ! i))))"
  using assms
  by (subst node_search.simps, simp add: Let_def descend_def restPath_def search_root,
      subst param_steps.simps, simp add: Let_def descend_def restPath_def steps_root)

lemma search_bind:
  assumes "path \<noteq> ''/''" "path \<noteq> []" "nextSegment (TrimPrefix path ''/'') = (seg, rm)"
    "findMatch seg (children n) = None" "paramChild n = Some pc"
  shows "node_search n path ps = node_search pc (restPath rm) (bind_param ps (paramKey pc) seg)"
    "param_steps n path = (seg, rm) # param_steps pc (restPath rm)"
  using assms
  by (subst node_search.simps, simp add: Let_def restPath_def search_root bind_param_def,
      subst param_steps.simps, simp add: Let_def restPath_def steps_root)

lemma search_dead:
  assumes "path \<noteq> ''/''" "path \<noteq> []" "nextSegment (TrimPrefix path ''/'') = (seg, rm)"
    "findMatch seg (children n) = None" "paramChild n = None"
  shows "node_search n path ps = (None, ps)"
  using assms by (subst node_search.simps) simp


lemma node_insert_steps_induct [consumes 1, case_names root param slot new]:
  assumes ins: "node_insert n path r = Inr n'"
    and R: "\<And>n r. P n ''/'' r (set_route n r)"
    and Pa: "\<And>n path r seg rm pc'.
        path \<noteq> ''/'' \<Longrightarrow> nextSegment (TrimPrefix path ''/'') = (seg, rm) \<Longrightarrow>
        seg \<noteq> [] \<Longrightarrow> hd seg = CHR '':'' \<Longrightarrow>
        node_insert (paramSlot n seg) (restPath rm) r = Inr pc' \<Longrightarrow>
        P (paramSlot n seg) (restPath rm) r pc' \<Longrightarrow>
        P n path r (set_paramChild n (Some pc'))"
    and Sl: "\<And>n path r seg rm i k X c'.
        path \<noteq> ''/'' \<Longrightarrow> nextSegment (TrimPrefix path ''/'') = (seg, rm) \<Longrightarrow>
        \<not> (seg \<noteq> [] \<and> hd seg = CHR '':'') \<Longrightarrow> findOverlap seg (children n) = Some i \<Longrightarrow>
        k = longestCommonPrefix seg (prefix (children n ! i)) \<Longrightarrow>
        X = (if k = length (prefix (children n ! i)) then children n ! i
             else splitChild (children n ! i) k) \<Longrightarrow>
        node_insert X (descend seg rm k) r = Inr c' \<Longrightarrow>
        P X (descend seg rm k) r c' \<Longrightarrow>
        P n path r (set_children n ((children n)[i := c']))"
    and Nw: "\<And>n path r seg rm c cs c'.
        path \<noteq> ''/'' \<Longrightarrow> nextSegment (TrimPrefix path ''/'') = (seg, rm) \<Longrightarrow>
        \<not> (seg \<noteq> [] \<and> hd seg = CHR '':'') \<Longrightarrow> findOverlap seg (children n) = None \<Longrightarrow>
        seg = c # cs \<Longrightarrow>
        node_insert (Node static c seg [] None [] None) (restPath rm) r = Inr c' \<Longrightarrow>
        P (Node static c seg [] None [] None) (restPath rm) r c' \<Longrightarrow>
        P n path r (set_children n (children n @ [c']))"
  shows "P n path r n'"
  using ins
proof (induction rule: node_insert_cases_induct)
  case (root n r)
  show ?case by (rule R)
next
  case (param_last n path r seg)
  show ?case
    using Pa[OF param_last(1-4), where r = r and pc' = "set_route (paramSlot n seg) r"] R
    by (simp add: restPath_def insert_root)
next
  case (param_more n path r seg rm pc')
  show ?case
    using Pa[OF param_more(1-4), where r = r and pc' = pc'] param_more(5-7)
    by (simp add: restPath_def)
next
  case (exact_last n path r seg i)
  show ?case
    using Sl[OF exact_last(1-4) refl refl, where r = r and c' = "set_route (children n ! i) r"] exact_last(5,6) R
    by (simp add: descend_def restPath_def insert_root)
next
  case (exact_more n path r seg rm i c')
  show ?case
    using Sl[OF exact_more(1-4) refl refl, where r = r and c' = c'] exact_more(5-9)
    by (simp add: descend_def restPath_def)
next
  case (longer n path r seg rm i c')
  show ?case
    using Sl[OF longer(1-4) refl refl, where r = r and c' = c'] longer(5-8)
    by (simp add: descend_def restPath_def)
next
  case (split_last n path r seg i k)
  show ?case
    using Sl[OF split_last(1-4) refl refl, where r = r and c' = "set_route (splitChild (children n ! i) k) r"]
      split_last(5-7) R
    by (simp add: descend_def restPath_def insert_root)
next
  case (split_more n path r seg rm i k s')
  show ?case
    using Sl[OF split_more(1-4) refl refl, where r = r and c' = s'] split_more(5-10)
    by (simp add: descend_def restPath_def)
next
  case (split_longer n path r seg rm i k s')
  show ?case
    using Sl[OF split_longer(1-4) refl refl, where r = r and c' = s'] split_longer(5-9)
    by (simp add: descend_def restPath_def)
next
  case (new_last n path r seg c cs)
  show ?case
    using Nw[OF new_last(1-5), where r = r and c' = "set_route (Node static c seg [] None [] None) r"]
      R[of "Node static c seg [] None [] None" r]
    by (simp add: restPath_def insert_root)
next
  case (new_more n path r seg rm c cs c')
  show ?case
    using Nw[OF new_more(1-5), where r = r and c' = c'] new_more(6-8)
    by (simp add: restPath_def)
qed


lemma walk_same:
  assumes "q = ''/'' \<or> q = [] \<Longrightarrow> route n' = route n"
    "findMatch (fst (nextSegment (TrimPrefix q ''/''))) (children n) = None \<Longrightarrow>
       paramChild n' = paramChild n"
    "findMatch (fst (nextSegment (TrimPrefix q ''/''))) (children n') =
       findMatch (fst (nextSegment (TrimPrefix q ''/''))) (children n)"
    "\<And>j. findMatch (fst (nextSegment (TrimPrefix q ''/''))) (children n) = Some j \<Longrightarrow>
       children n' ! j = children n ! j"
  shows "node_search n' q ps = node_search n q ps" "param_steps n' q = param_steps n q"
proof -
  obtain seg rm where s: "nextSegment (TrimPrefix q ''/'') = (seg, rm)" by force
  note a = assms[unfolded s fst_conv]
  show "node_search n' q ps = node_search n q ps"
    using a s
    by (subst (1 2) node_search.simps) (auto simp: Let_def split: option.splits)
  show "param_steps n' q = param_steps n q"
    using a s
    by (subst (1 2) param_steps.simps) (auto simp: Let_def split: option.splits)
qed

lemma HasPrefix_take_prefix: "HasPrefix s p \<Longrightarrow> HasPrefix s (take k p)"
  unfolding HasPrefix_def
  by (metis length_take min.cobounded1 order_trans take_take min.commute min_def)

lemma findMatch_keep:
  "findMatch seg cs = Some i \<Longrightarrow> nType c' = static \<Longrightarrow> HasPrefix seg (prefix c') \<Longrightarrow>
     findMatch seg (cs[i := c']) = Some i"
proof (induction cs arbitrary: i)
  case Nil then show ?case by simp
next
  case (Cons a cs)
  show ?case
  proof (cases i)
    case 0
    with Cons.prems show ?thesis using HasPrefix_len[of seg "prefix c'"] by auto
  next
    case (Suc j)
    with Cons.prems have "findMatch seg cs = Some j"
      and "\<not> (nType a = static \<and> HasPrefix seg (prefix a) \<and>
            (length seg = length (prefix a) \<or> length seg > length (prefix a)))"
      by (auto split: if_splits)
    with Cons.IH[of j] Cons.prems(2,3) Suc show ?thesis by auto
  qed
qed

lemma findMatch_fresh:
  "findMatch seg cs = None \<Longrightarrow> i < length cs \<Longrightarrow> nType c' = static \<Longrightarrow>
     HasPrefix seg (prefix c') \<Longrightarrow> findMatch seg (cs[i := c']) = Some i"
proof (induction cs arbitrary: i)
  case Nil then show ?case by simp
next
  case (Cons a cs)
  show ?case
  proof (cases i)
    case 0
    with Cons.prems show ?thesis using HasPrefix_len[of seg "prefix c'"] by auto
  next
    case (Suc j)
    with Cons.prems have "findMatch seg cs = None" "j < length cs"
      and "\<not> (nType a = static \<and> HasPrefix seg (prefix a) \<and>
            (length seg = length (prefix a) \<or> length seg > length (prefix a)))"
      by (auto split: if_splits)
    with Cons.IH[of j] Cons.prems(3,4) Suc show ?thesis by auto
  qed
qed

lemma findMatch_append_keep:
  "findMatch seg cs = Some j \<Longrightarrow>
     findMatch seg (cs @ [c']) = Some j \<and> (cs @ [c']) ! j = cs ! j"
proof (induction cs arbitrary: j)
  case Nil then show ?case by simp
next
  case (Cons a cs)
  then show ?case by (cases j) (auto split: if_splits)
qed

lemma findMatch_other:
  assumes "distinct (map (\<lambda>c. hd (prefix c)) cs)" "\<forall>c\<in>set cs. prefix c \<noteq> []"
    "findMatch seg cs = Some j" "i < length cs" "i \<noteq> j"
    "prefix c' \<noteq> []" "hd (prefix c') = hd (prefix (cs ! i))"
  shows "findMatch seg (cs[i := c']) = Some j \<and> (cs[i := c']) ! j = cs ! j"
proof -
  note m = findMatch_Some[OF assms(3)]
  have pj: "prefix (cs ! j) \<noteq> []" using assms(2) m by simp
  have hs: "seg \<noteq> [] \<and> hd seg = hd (prefix (cs ! j))"
    using HasPrefix_hd[of seg "prefix (cs ! j)"] m pj by simp
  have "map (\<lambda>c. hd (prefix c)) cs ! i \<noteq> map (\<lambda>c. hd (prefix c)) cs ! j"
    using assms(1,4,5) m by (simp add: nth_eq_iff_index_eq del: nth_map)
  then have ne: "hd (prefix (cs ! i)) \<noteq> hd (prefix (cs ! j))" using assms(4) m by simp
  have pi: "prefix (cs ! i) \<noteq> []" using assms(2,4) by simp
  have a: "\<not> HasPrefix seg (prefix (cs ! i))"
    using HasPrefix_hd[of seg "prefix (cs ! i)"] pi hs ne by auto
  have b: "\<not> HasPrefix seg (prefix c')"
    using HasPrefix_hd[of seg "prefix c'"] assms(6,7) hs ne by auto
  show ?thesis
    using findMatch_update_other[OF assms(4), of seg c'] a b assms(3) by simp
qed

lemma TrimPrefix_le: "length (TrimPrefix x ''/'') \<le> length x"
  by (simp add: TrimPrefix_def)

lemma covers_end: "q = ''/'' \<or> q = [] \<Longrightarrow> covers ''/'' q"
  by (subst covers.simps) simp

lemma covers_param:
  assumes "p \<noteq> ''/''" "q \<noteq> ''/''" "q \<noteq> []"
    "nextSegment (TrimPrefix p ''/'') = (sp, rp)" "nextSegment (TrimPrefix q ''/'') = (sq, rq)"
    "sp \<noteq> []" "hd sp = CHR '':''" "covers (restPath rp) (restPath rq)"
  shows "covers p q"
  using assms by (subst covers.simps) simp

lemma covers_byte:
  assumes "p \<noteq> ''/''" "q \<noteq> ''/''" "q \<noteq> []"
    "nextSegment (TrimPrefix p ''/'') = (sp, rp)" "nextSegment (TrimPrefix q ''/'') = (sq, rq)"
    "sp \<noteq> []" "sq \<noteq> []" "hd sp = hd sq" "covers (descend sp rp 1) (descend sq rq 1)"
  shows "covers p q"
  using assms by (subst covers.simps) simp

lemma steps_bound:
  "\<forall>(s, rm) \<in> set (param_steps n path).
      length s + length rm \<le> length (TrimPrefix path ''/'')"
proof (rule node_search_cases_induct[where P = "\<lambda>n path ps res.
      \<forall>(s, rm) \<in> set (param_steps n path).
        length s + length rm \<le> length (TrimPrefix path ''/'')" and n = n and path = path
      and ps = None], goal_cases)
  case (1 n path ps)
  then show ?case by (simp add: steps_here)
next
  case (2 n path ps seg i)
  then show ?case
    using search_descend(2)[OF 2(1,2,3,4)] by (simp add: descend_def restPath_def steps_root)
next
  case (3 n path ps seg rm i)
  have "length (TrimPrefix rm ''/'') \<le> length (TrimPrefix path ''/'')"
    using TrimPrefix_le[of rm] nextSegment_append[OF 3(3)] by simp
  with 3 show ?case
    using search_descend(2)[OF 3(1,2,3,4)] by (auto simp add: descend_def restPath_def)
next
  case (4 n path ps seg rm i)
  have "length (drop (length (prefix (children n ! i))) seg @ rm) \<le> length (TrimPrefix path ''/'')"
    using nextSegment_append[OF 4(3)] by simp
  with 4 show ?case
    using search_descend(2)[OF 4(1,2,3,4)] by (auto simp add: descend_def TrimPrefix_slash)
next
  case (5 n path ps seg pc)
  then show ?case
    using search_bind(2)[OF 5(1,2,3,4,5)] nextSegment_append[OF 5(3)]
    by (simp add: restPath_def steps_root)
next
  case (6 n path ps seg rm pc)
  have "length (TrimPrefix rm ''/'') \<le> length (TrimPrefix path ''/'')"
    using TrimPrefix_le[of rm] nextSegment_append[OF 6(3)] by simp
  with 6 show ?case
    using search_bind(2)[OF 6(1,2,3,4,5)] nextSegment_append[OF 6(3)]
    by (auto simp add: restPath_def)
next
  case (7 n path ps seg rm)
  then show ?case by (subst param_steps.simps) simp
qed

lemma shadow_steps:
  assumes "q \<noteq> ''/''" "q \<noteq> []" "nextSegment (TrimPrefix q ''/'') = (sq, rq)"
    "findMatch sq (children n) = None" "paramChild n = Some pc"
    "findMatch sq (children n') = Some i" "prefix (children n' ! i) \<noteq> []"
  shows "param_steps n' q \<noteq> param_steps n q"
proof
  assume e: "param_steps n' q = param_steps n q"
  let ?c = "children n' ! i"
  have hp: "HasPrefix sq (prefix ?c)" using findMatch_Some[OF assms(6)] by simp
  then have k: "0 < length (prefix ?c)" "length (prefix ?c) \<le> length sq"
    using assms(7) by (simp_all add: HasPrefix_def)
  have r: "rq \<noteq> [] \<longrightarrow> hd rq = CHR ''/''" using nextSegment_remaining[OF assms(3)] by simp
  have "(sq, rq) \<in> set (param_steps n q)" using search_bind(2)[OF assms(1-5)] by simp
  with e have "(sq, rq) \<in> set (param_steps ?c (descend sq rq (length (prefix ?c))))"
    using search_descend(2)[OF assms(1,2,3,6)] by simp
  then have "length sq + length rq \<le> length (TrimPrefix (descend sq rq (length (prefix ?c))) ''/'')"
    using steps_bound[of ?c "descend sq rq (length (prefix ?c))"] by auto
  with descend_shorter[OF k r] show False by simp
qed


lemma nextSegment_join:
  "CHR ''/'' \<notin> set s \<Longrightarrow> rm = [] \<or> hd rm = CHR ''/'' \<Longrightarrow> nextSegment (s @ rm) = (s, rm)"
proof (induction s)
  case Nil
  then show ?case by (cases rm) auto
next
  case (Cons a s)
  then show ?case by auto
qed

lemma nextSegment_drop:
  assumes "nextSegment path = (seg, rm)"
  shows "nextSegment (drop k seg @ rm) = (drop k seg, rm)"
proof -
  have "CHR ''/'' \<notin> set (drop k seg)"
    using nextSegment_segment[OF assms] by (auto dest: in_set_dropD)
  moreover have "rm = [] \<or> hd rm = CHR ''/''" using nextSegment_remaining[OF assms] by auto
  ultimately show ?thesis by (rule nextSegment_join)
qed

lemma HasPrefix_drop:
  "HasPrefix s p \<Longrightarrow> HasPrefix (drop k s) (drop k p)"
  unfolding HasPrefix_def by (metis drop_take length_drop diff_le_mono)

lemma split_through:
  assumes "nType c = static" "k < length (prefix c)" "HasPrefix sq (prefix c)"
    "nextSegment (TrimPrefix q ''/'') = (sq, rq)"
  shows "node_search (splitChild c k) (descend sq rq k) ps =
           node_search c (descend sq rq (length (prefix c))) ps"
    "param_steps (splitChild c k) (descend sq rq k) =
           param_steps c (descend sq rq (length (prefix c)))"
proof -
  let ?c0 = "set_prefix c (drop k (prefix c)) (hd (drop k (prefix c)))"
  let ?q1 = "''/'' @ drop k sq @ rq"
  have l: "length (prefix c) \<le> length sq" using assms(3) by (simp add: HasPrefix_def)
  with assms(2) have ks: "k < length sq" by simp
  then have d: "descend sq rq k = ?q1" by (simp add: descend_def)
  have ne: "?q1 \<noteq> ''/''" "?q1 \<noteq> []" using ks by simp_all
  have sg: "nextSegment (TrimPrefix ?q1 ''/'') = (drop k sq, rq)"
    using nextSegment_drop[OF assms(4)] by (simp add: TrimPrefix_slash)
  have hp: "HasPrefix (drop k sq) (drop k (prefix c))" using HasPrefix_drop[OF assms(3)] .
  have fm: "findMatch (drop k sq) (children (splitChild c k)) = Some 0"
    using hp assms(1) HasPrefix_len[OF hp] by simp
  have e: "descend (drop k sq) rq (length (prefix ?c0)) = descend sq rq (length (prefix c))"
    using assms(2) l by (auto simp: descend_def)
  have c0: "children (splitChild c k) ! 0 = ?c0" by simp
  have "node_search (splitChild c k) ?q1 ps = node_search ?c0 (descend sq rq (length (prefix c))) ps"
    using search_descend(1)[OF ne sg fm, of ps] e c0 by simp
  also have "\<dots> = node_search c (descend sq rq (length (prefix c))) ps"
    by (rule walk_same) simp_all
  finally show "node_search (splitChild c k) (descend sq rq k) ps =
           node_search c (descend sq rq (length (prefix c))) ps" using d by simp
  have "param_steps (splitChild c k) ?q1 = param_steps ?c0 (descend sq rq (length (prefix c)))"
    using search_descend(2)[OF ne sg fm] e c0 by simp
  also have "\<dots> = param_steps c (descend sq rq (length (prefix c)))"
    by (rule walk_same) simp_all
  finally show "param_steps (splitChild c k) (descend sq rq k) =
           param_steps c (descend sq rq (length (prefix c)))" using d by simp
qed

lemma unslashed_append [simp]: "unslashed (a @ b) = unslashed a @ unslashed b"
  by (simp add: unslashed_def)

lemma unslashed_plain: "CHR ''/'' \<notin> set s \<Longrightarrow> unslashed s = s"
  unfolding unslashed_def by (induction s) auto

lemma unslashed_TrimPrefix: "unslashed (TrimPrefix p ''/'') = unslashed p"
  by (cases p) (auto simp: TrimPrefix_def HasPrefix_def unslashed_def)

lemma unslashed_restPath: "unslashed (restPath rm) = unslashed rm"
  by (simp add: restPath_def unslashed_def)

lemma unslashed_descend:
  assumes "nextSegment (TrimPrefix path ''/'') = (seg, rm)" "k \<le> length seg"
  shows "unslashed path = take k seg @ unslashed (descend seg rm k)"
proof -
  have s: "unslashed seg = seg" "unslashed (drop k seg) = drop k seg"
    using nextSegment_segment[OF assms(1)] by (auto intro!: unslashed_plain dest: in_set_dropD)
  have "unslashed path = unslashed (seg @ rm)"
    using nextSegment_append[OF assms(1)] unslashed_TrimPrefix[of path] by simp
  also have "\<dots> = seg @ unslashed rm" using s by simp
  finally have a: "unslashed path = seg @ unslashed rm" .
  have "unslashed (descend seg rm k) = drop k seg @ unslashed rm"
    using s assms(2) unslashed_restPath[of rm] by (auto simp: descend_def unslashed_def)
  with a show ?thesis by simp
qed

lemma unslashed_normPath: "unslashed (normPath p) = unslashed p"
  by (simp add: normPath_def Let_def unslashed_def)


lemma frame_root:
  "node_search (set_route n r) q ps = node_search n q ps \<or>
   ((q = ''/'' \<or> q = []) \<and> node_search (set_route n r) q ps = (r, ps))"
proof (cases "q = ''/'' \<or> q = []")
  case True
  then show ?thesis using search_here[of q "set_route n r" ps] by simp
next
  case False
  have "node_search (set_route n r) q ps = node_search n q ps"
    using False by (intro walk_same) simp_all
  then show ?thesis by simp
qed

lemma frame_param:
  assumes "paramKey pc' = paramKey (paramSlot n seg)" "node_search n q ps = (Some ro, ps1)"
  shows "(node_search (set_paramChild n (Some pc')) q ps = node_search n q ps \<and>
      param_steps (set_paramChild n (Some pc')) q = param_steps n q) \<or>
     (\<exists>sq rq. q \<noteq> ''/'' \<and> q \<noteq> [] \<and> nextSegment (TrimPrefix q ''/'') = (sq, rq) \<and>
        node_search n q ps =
          node_search (paramSlot n seg) (restPath rq)
            (bind_param ps (paramKey (paramSlot n seg)) sq) \<and>
        param_steps n q = (sq, rq) # param_steps (paramSlot n seg) (restPath rq) \<and>
        node_search (set_paramChild n (Some pc')) q ps =
          node_search pc' (restPath rq) (bind_param ps (paramKey (paramSlot n seg)) sq) \<and>
        param_steps (set_paramChild n (Some pc')) q = (sq, rq) # param_steps pc' (restPath rq))"
proof (cases "q = ''/'' \<or> q = []")
  case True
  then show ?thesis
    using search_here[of q "set_paramChild n (Some pc')" ps] search_here[of q n ps]
      steps_here[of q "set_paramChild n (Some pc')"] steps_here[of q n] by simp
next
  case False
  then have q: "q \<noteq> ''/''" "q \<noteq> []" by simp_all
  obtain sq rq where sg: "nextSegment (TrimPrefix q ''/'') = (sq, rq)" by force
  show ?thesis
  proof (cases "findMatch sq (children n)")
    case (Some j)
    have "node_search (set_paramChild n (Some pc')) q ps = node_search n q ps"
      using Some sg q by (intro walk_same) simp_all
    moreover have "param_steps (set_paramChild n (Some pc')) q = param_steps n q"
      using Some sg q by (intro walk_same) simp_all
    ultimately show ?thesis by simp
  next
    case None
    show ?thesis
    proof (cases "paramChild n")
      case pn: None
      with search_dead[OF q sg None pn, of ps] assms(2) show ?thesis by simp
    next
      case (Some pc)
      then have slot: "paramSlot n seg = pc" by (simp add: paramSlot_def)
      have fm': "findMatch sq (children (set_paramChild n (Some pc'))) = None" using None by simp
      have pc': "paramChild (set_paramChild n (Some pc')) = Some pc'" by simp
      show ?thesis
        using search_bind(1)[OF q sg None Some, of ps] search_bind(1)[OF q sg fm' pc', of ps]
          search_bind(2)[OF q sg None Some] search_bind(2)[OF q sg fm' pc']
          sg slot assms(1) q by simp
    qed
  qed
qed

lemma frame_slot:
  assumes sd: "sibling_disjoint n" and i: "i < length (children n)"
    and c': "nType c' = static" "prefix c' = take k (prefix (children n ! i))" "0 < k"
      "k \<le> length (prefix (children n ! i))"
    and res: "node_search n q ps = (Some ro, ps1)"
    and hyp: "param_steps n q = [] \<or>
              param_steps (set_children n ((children n)[i := c'])) q = param_steps n q \<or>
              (\<forall>(s, rm) \<in> set (param_steps n q). \<not> HasPrefix s (prefix c'))"
  shows "(node_search (set_children n ((children n)[i := c'])) q ps = node_search n q ps \<and>
      param_steps (set_children n ((children n)[i := c'])) q = param_steps n q) \<or>
     (\<exists>sq rq. q \<noteq> ''/'' \<and> q \<noteq> [] \<and> nextSegment (TrimPrefix q ''/'') = (sq, rq) \<and>
        HasPrefix sq (prefix (children n ! i)) \<and>
        node_search n q ps =
          node_search (children n ! i) (descend sq rq (length (prefix (children n ! i)))) ps \<and>
        param_steps n q =
          param_steps (children n ! i) (descend sq rq (length (prefix (children n ! i)))) \<and>
        node_search (set_children n ((children n)[i := c'])) q ps =
          node_search c' (descend sq rq k) ps \<and>
        param_steps (set_children n ((children n)[i := c'])) q =
          param_steps c' (descend sq rq k))"
proof (cases "q = ''/'' \<or> q = []")
  case True
  then show ?thesis
    using search_here[of q "set_children n ((children n)[i := c'])" ps] search_here[of q n ps]
      steps_here[of q "set_children n ((children n)[i := c'])"] steps_here[of q n]
    by simp
next
  case False
  then have q: "q \<noteq> ''/''" "q \<noteq> []" by simp_all
  let ?n' = "set_children n ((children n)[i := c'])"
  obtain sq rq where sg: "nextSegment (TrimPrefix q ''/'') = (sq, rq)" by force
  note ch = sd_child[OF sd i]
  have pl: "length (prefix c') = k" using c'(2,4) by simp
  have pne: "prefix c' \<noteq> []" using c'(2,3,4) ch by (cases "prefix (children n ! i)") auto
  have phd: "hd (prefix c') = hd (prefix (children n ! i))" using c'(2,3) by (simp add: hd_take)
  show ?thesis
  proof (cases "findMatch sq (children n)")
    case None
    show ?thesis
    proof (cases "paramChild n")
      case pn: None
      with search_dead[OF q sg None pn, of ps] res show ?thesis by simp
    next
      case (Some pc)
      show ?thesis
      proof (cases "HasPrefix sq (prefix c')")
        case True
        have fm': "findMatch sq (children ?n') = Some i"
          using findMatch_fresh[OF None i c'(1) True] by simp
        have "prefix (children ?n' ! i) \<noteq> []" using i pne by simp
        from shadow_steps[OF q sg None Some fm' this] hyp
        have "param_steps n q = [] \<or>
              (\<forall>(s, rm) \<in> set (param_steps n q). \<not> HasPrefix s (prefix c'))" by simp
        with search_bind(2)[OF q sg None Some] True show ?thesis by simp
      next
        case False
        have old: "\<not> (nType (children n ! i) = static \<and> HasPrefix sq (prefix (children n ! i)))"
          using None findMatch_set[of sq "children n"] i by auto
        have "node_search ?n' q ps = node_search n q ps"
          using findMatch_update_other[OF i old, of c'] False sg
          by (intro walk_same) simp_all
        moreover have "param_steps ?n' q = param_steps n q"
          using findMatch_update_other[OF i old, of c'] False sg
          by (intro walk_same) simp_all
        ultimately show ?thesis by simp
      qed
    qed
  next
    case (Some j)
    show ?thesis
    proof (cases "j = i")
      case True
      have hp: "HasPrefix sq (prefix (children n ! i))" using findMatch_Some[OF Some] True by simp
      then have hp': "HasPrefix sq (prefix c')" using HasPrefix_take_prefix c'(2) by simp
      have fm': "findMatch sq (children ?n') = Some i"
        using findMatch_keep[OF Some[unfolded True] c'(1) hp'] by simp
      have c: "children ?n' ! i = c'" using i by simp
      show ?thesis
        using search_descend(1)[OF q sg Some[unfolded True], of ps]
          search_descend(1)[OF q sg fm', of ps]
          search_descend(2)[OF q sg Some[unfolded True]] search_descend(2)[OF q sg fm']
          sg hp c pl q by simp
    next
      case False
      have d: "distinct (map (\<lambda>c. hd (prefix c)) (children n))" "\<forall>c\<in>set (children n). prefix c \<noteq> []"
        using sd by (auto simp: sibling_disjoint_iff[of n])
      have ne: "i \<noteq> j" using False by simp
      have "node_search ?n' q ps = node_search n q ps"
        using findMatch_other[OF d Some i ne pne phd] Some sg
        by (intro walk_same) simp_all
      moreover have "param_steps ?n' q = param_steps n q"
        using findMatch_other[OF d Some i ne pne phd] Some sg
        by (intro walk_same) simp_all
      ultimately show ?thesis by simp
    qed
  qed
qed

lemma frame_new:
  assumes c': "nType c' = static" "prefix c' \<noteq> []"
    and res: "node_search n q ps = (Some ro, ps1)"
    and hyp: "param_steps n q = [] \<or>
              param_steps (set_children n (children n @ [c'])) q = param_steps n q \<or>
              (\<forall>(s, rm) \<in> set (param_steps n q). \<not> HasPrefix s (prefix c'))"
  shows "node_search (set_children n (children n @ [c'])) q ps = node_search n q ps"
    "param_steps (set_children n (children n @ [c'])) q = param_steps n q"
proof -
  let ?n' = "set_children n (children n @ [c'])"
  have "node_search ?n' q ps = node_search n q ps \<and> param_steps ?n' q = param_steps n q"
  proof (cases "q = ''/'' \<or> q = []")
    case True
    then show ?thesis
      using search_here[of q ?n' ps] search_here[of q n ps] steps_here[of q ?n'] steps_here[of q n]
      by simp
  next
    case False
    then have q: "q \<noteq> ''/''" "q \<noteq> []" by simp_all
    obtain sq rq where sg: "nextSegment (TrimPrefix q ''/'') = (sq, rq)" by force
    show ?thesis
    proof (cases "findMatch sq (children n)")
      case None
      show ?thesis
      proof (cases "paramChild n")
        case pn: None
        with search_dead[OF q sg None pn, of ps] res show ?thesis by simp
      next
        case (Some pc)
        show ?thesis
        proof (cases "HasPrefix sq (prefix c')")
          case True
          have fm': "findMatch sq (children ?n') = Some (length (children n))"
            using findMatch_append[OF None c'(1) True] by simp
          have "prefix (children ?n' ! length (children n)) \<noteq> []" using c'(2) by simp
          from shadow_steps[OF q sg None Some fm' this] hyp
          have "param_steps n q = [] \<or>
                (\<forall>(s, rm) \<in> set (param_steps n q). \<not> HasPrefix s (prefix c'))" by simp
          with search_bind(2)[OF q sg None Some] True show ?thesis by simp
        next
          case False
          have "node_search ?n' q ps = node_search n q ps"
            using findMatch_append_other[of c' sq "children n"] False sg
            by (intro walk_same) simp_all
          moreover have "param_steps ?n' q = param_steps n q"
            using findMatch_append_other[of c' sq "children n"] False sg
            by (intro walk_same) simp_all
          ultimately show ?thesis by simp
        qed
      qed
    next
      case (Some j)
      have "node_search ?n' q ps = node_search n q ps"
        using findMatch_append_keep[OF Some, of c'] Some sg
        by (intro walk_same) simp_all
      moreover have "param_steps ?n' q = param_steps n q"
        using findMatch_append_keep[OF Some, of c'] Some sg
        by (intro walk_same) simp_all
      ultimately show ?thesis by simp
    qed
  qed
  then show "node_search ?n' q ps = node_search n q ps" "param_steps ?n' q = param_steps n q"
    by simp_all
qed

lemma HasPrefix_take_eq: "HasPrefix s p \<Longrightarrow> k \<le> length p \<Longrightarrow> take k s = take k p"
  unfolding HasPrefix_def by (metis min.absorb2 take_take min.commute)

lemma descend_drop:
  "0 < j \<Longrightarrow> Suc j \<le> length s \<Longrightarrow> descend (drop 1 s) rm j = descend s rm (Suc j)"
  by (auto simp: descend_def)

lemma descend_one:
  "1 < length s \<Longrightarrow> descend s rm 1 = ''/'' @ drop 1 s @ rm"
  by (simp add: descend_def)

lemma covers_static:
  assumes "0 < k" "p \<noteq> ''/''" "q \<noteq> ''/''" "q \<noteq> []"
    "nextSegment (TrimPrefix p ''/'') = (sp, rp)" "nextSegment (TrimPrefix q ''/'') = (sq, rq)"
    "k \<le> length sp" "k \<le> length sq" "take k sp = take k sq"
    "covers (descend sp rp k) (descend sq rq k)"
  shows "covers p q"
  using assms
proof (induction k arbitrary: p q sp sq)
  case 0
  then show ?case by simp
next
  case (Suc j)
  have ne: "sp \<noteq> []" "sq \<noteq> []" using Suc.prems(7,8) by auto
  have hd: "hd sp = hd sq"
    using Suc.prems(9) ne by (cases sp; cases sq) auto
  show ?case
  proof (cases "j = 0")
    case True
    with Suc.prems(10) have "covers (descend sp rp 1) (descend sq rq 1)" by simp
    from covers_byte[OF Suc.prems(2,3,4,5,6) ne hd this] show ?thesis .
  next
    case False
    then have j: "0 < j" by simp
    let ?p1 = "''/'' @ drop 1 sp @ rp" and ?q1 = "''/'' @ drop 1 sq @ rq"
    have l: "1 < length sp" "1 < length sq" using Suc.prems(7,8) j by auto
    have n1: "?p1 \<noteq> ''/''" "?q1 \<noteq> ''/''" "?q1 \<noteq> []" using l by auto
    have s1: "nextSegment (TrimPrefix ?p1 ''/'') = (drop 1 sp, rp)"
      "nextSegment (TrimPrefix ?q1 ''/'') = (drop 1 sq, rq)"
      using nextSegment_drop[OF Suc.prems(5), of 1] nextSegment_drop[OF Suc.prems(6), of 1]
      by (simp_all add: TrimPrefix_slash)
    have t: "take j (drop 1 sp) = take j (drop 1 sq)"
      using Suc.prems(9) ne by (cases sp; cases sq) auto
    have c: "covers (descend (drop 1 sp) rp j) (descend (drop 1 sq) rq j)"
      using Suc.prems(10) descend_drop[OF j Suc.prems(7)] descend_drop[OF j Suc.prems(8)]
      by simp
    have "covers ?p1 ?q1"
      using Suc.IH[OF j n1 s1 _ _ t c] Suc.prems(7,8) by simp
    then have "covers (descend sp rp 1) (descend sq rq 1)"
      using descend_one[OF l(1)] descend_one[OF l(2)] by simp
    from covers_byte[OF Suc.prems(2,3,4,5,6) ne hd this] show ?thesis .
  qed
qed

lemma node_insert_frame_general:
  assumes "node_insert n p r = Inr n'" "sibling_disjoint n"
    "node_search n q ps = (Some ro, ps1)"
    "param_steps n q = [] \<or> param_steps n' q = param_steps n q"
  shows "node_search n' q ps = (Some ro, ps1) \<or>
         (fst (node_search n' q ps) = r \<and> covers p q \<and>
          (param_steps n q = [] \<longrightarrow> unslashed q = unslashed p))"
  using assms
proof (induction arbitrary: q ps rule: node_insert_steps_induct)
  case (root n r)
  from frame_root[of n r q ps] show ?case
  proof
    assume "node_search (set_route n r) q ps = node_search n q ps"
    with root(2) show ?thesis by simp
  next
    assume "(q = ''/'' \<or> q = []) \<and> node_search (set_route n r) q ps = (r, ps)"
    then show ?thesis using covers_end[of q] by (auto simp: unslashed_def)
  qed
next
  case (param n path r seg rm pc')
  let ?X = "paramSlot n seg"
  have k: "paramKey pc' = paramKey ?X" using node_insert_fields[OF param(5)] by simp
  from frame_param[OF k param(8)] show ?case
  proof (elim disjE exE conjE)
    assume "node_search (set_paramChild n (Some pc')) q ps = node_search n q ps"
    with param(8) show ?thesis by simp
  next
    fix sq rq
    assume q: "q \<noteq> ''/''" "q \<noteq> []" and sg: "nextSegment (TrimPrefix q ''/'') = (sq, rq)"
      and a: "node_search n q ps = node_search ?X (restPath rq) (bind_param ps (paramKey ?X) sq)"
      "param_steps n q = (sq, rq) # param_steps ?X (restPath rq)"
      "node_search (set_paramChild n (Some pc')) q ps =
         node_search pc' (restPath rq) (bind_param ps (paramKey ?X) sq)"
      "param_steps (set_paramChild n (Some pc')) q = (sq, rq) # param_steps pc' (restPath rq)"
    have h: "param_steps ?X (restPath rq) = [] \<or>
             param_steps pc' (restPath rq) = param_steps ?X (restPath rq)"
      using param(9) a(2,4) by simp
    have s: "node_search ?X (restPath rq) (bind_param ps (paramKey ?X) sq) = (Some ro, ps1)"
      using param(8) a(1) by simp
    from param(6)[OF sd_paramSlot[OF param(7)] s h]
    show ?thesis
    proof
      assume "node_search pc' (restPath rq) (bind_param ps (paramKey ?X) sq) = (Some ro, ps1)"
      with a(3) show ?thesis by simp
    next
      assume b: "fst (node_search pc' (restPath rq) (bind_param ps (paramKey ?X) sq)) = r \<and>
          covers (restPath rm) (restPath rq) \<and>
          (param_steps ?X (restPath rq) = [] \<longrightarrow> unslashed (restPath rq) = unslashed (restPath rm))"
      then have "covers path q"
        using covers_param[OF param(1) q param(2) sg param(3,4)] by simp
      with b a(2,3) show ?thesis by simp
    qed
  qed
next
  case (slot n path r seg rm i k X c')
  let ?c = "children n ! i"
  note o = overlap_facts[OF slot(4)]
  note ch = sd_child[OF slot(9) o(1)]
  have k0: "0 < k" using o(3) slot(5) by simp
  have kp: "k \<le> length (prefix ?c)" using slot(5) lcp_le2 by simp
  have ks: "k \<le> length seg" using slot(5) lcp_le1 by simp
  have pX: "prefix X = take k (prefix ?c)" "nType X = static"
    using slot(6) ch by (auto split: if_splits)
  note f = node_insert_fields[OF slot(7)]
  have c': "nType c' = static" "prefix c' = take k (prefix ?c)" using f pX by simp_all
  have sdX: "sibling_disjoint X"
    using slot(6) ch kp sd_splitChild[of ?c k] by (auto split: if_splits)
  have hyp: "param_steps n q = [] \<or>
      param_steps (set_children n ((children n)[i := c'])) q = param_steps n q \<or>
      (\<forall>(s, rm) \<in> set (param_steps n q). \<not> HasPrefix s (prefix c'))"
    using slot(11) by auto
  from frame_slot[OF slot(9) o(1) c' k0 kp slot(10) hyp] show ?case
  proof (elim disjE exE conjE)
    assume "node_search (set_children n ((children n)[i := c'])) q ps = node_search n q ps"
    with slot(10) show ?thesis by simp
  next
    fix sq rq
    assume q: "q \<noteq> ''/''" "q \<noteq> []" and sg: "nextSegment (TrimPrefix q ''/'') = (sq, rq)"
      and hp: "HasPrefix sq (prefix ?c)"
      and a: "node_search n q ps = node_search ?c (descend sq rq (length (prefix ?c))) ps"
      "param_steps n q = param_steps ?c (descend sq rq (length (prefix ?c)))"
      "node_search (set_children n ((children n)[i := c'])) q ps =
         node_search c' (descend sq rq k) ps"
      "param_steps (set_children n ((children n)[i := c'])) q = param_steps c' (descend sq rq k)"
    have through: "node_search X (descend sq rq k) ps =
          node_search ?c (descend sq rq (length (prefix ?c))) ps \<and>
        param_steps X (descend sq rq k) = param_steps ?c (descend sq rq (length (prefix ?c)))"
    proof (cases "k = length (prefix ?c)")
      case True
      with slot(6) show ?thesis by simp
    next
      case False
      with kp have "k < length (prefix ?c)" by simp
      from split_through(1)[OF _ this hp sg, of ps] split_through(2)[OF _ this hp sg]
        ch slot(6) False show ?thesis by simp
    qed
    have s: "node_search X (descend sq rq k) ps = (Some ro, ps1)"
      using through a(1) slot(10) by simp
    have h: "param_steps X (descend sq rq k) = [] \<or>
             param_steps c' (descend sq rq k) = param_steps X (descend sq rq k)"
      using through a(2,4) slot(11) by simp
    have kq: "k \<le> length sq" using hp kp by (simp add: HasPrefix_def)
    have tk: "take k seg = take k sq"
      using HasPrefix_take_eq[OF hp kp] lcp_take[of seg "prefix ?c"] slot(5) by simp
    then have u: "unslashed q = unslashed path \<longleftrightarrow>
        unslashed (descend sq rq k) = unslashed (descend seg rm k)"
      using unslashed_descend[OF sg kq] unslashed_descend[OF slot(2) ks] by simp
    from slot(8)[OF sdX s h] show ?thesis
    proof
      assume "node_search c' (descend sq rq k) ps = (Some ro, ps1)"
      with a(3) show ?thesis by simp
    next
      assume b: "fst (node_search c' (descend sq rq k) ps) = r \<and>
          covers (descend seg rm k) (descend sq rq k) \<and>
          (param_steps X (descend sq rq k) = [] \<longrightarrow>
             unslashed (descend sq rq k) = unslashed (descend seg rm k))"
      then have "covers path q"
        using covers_static[OF k0 slot(1) q slot(2) sg ks kq tk] by simp
      with b a(2,3) through u show ?thesis by simp
    qed
  qed
next
  case (new n path r seg rm c cs c')
  note f = node_insert_fields[OF new(6)]
  have hyp: "param_steps n q = [] \<or>
      param_steps (set_children n (children n @ [c'])) q = param_steps n q \<or>
      (\<forall>(s, rm) \<in> set (param_steps n q). \<not> HasPrefix s (prefix c'))"
    using new(10) by auto
  have "node_search (set_children n (children n @ [c'])) q ps = node_search n q ps"
    using new(5) f by (intro frame_new(1)[OF _ _ new(9) hyp]) simp_all
  with new(9) show ?case by simp
qed






lemma search_keeps_params: "snd (node_search n q (Some m)) \<noteq> None"
  using node_search_bound[of n q "Some m"] by auto

lemma steps_none:
  "snd (node_search n path ps) = None \<longrightarrow> param_steps n path = []"
proof (induction n path ps rule: node_search_cases_induct)
  case (here n path ps)
  then show ?case by (simp add: steps_here)
next
  case (exact_last n path ps seg i)
  then show ?case
    using search_descend(2)[OF exact_last(1,2,3,4)] by (simp add: descend_def restPath_def steps_root)
next
  case (exact_more n path ps seg rm i)
  then show ?case
    using search_descend(2)[OF exact_more(1,2,3,4)] by (simp add: descend_def restPath_def)
next
  case (longer n path ps seg rm i)
  then show ?case
    using search_descend(2)[OF longer(1,2,3,4)] by (simp add: descend_def)
next
  case (param_last n path ps seg pc)
  then show ?case by (simp add: bind_param_def)
next
  case (param_more n path ps seg rm pc)
  then show ?case
    using search_keeps_params[of pc rm "(case ps of None \<Rightarrow> Map.empty | Some m \<Rightarrow> m)(paramKey pc \<mapsto> seg)"]
    by (auto simp add: bind_param_def)
next
  case (none n path ps seg rm)
  then show ?case by (subst param_steps.simps) simp
qed

lemma steps_empty:
  "param_steps n path = [] \<longrightarrow> snd (node_search n path ps) = ps"
proof (induction n path ps rule: node_search_cases_induct)
  case (here n path ps)
  then show ?case by simp
next
  case (exact_last n path ps seg i)
  then show ?case by simp
next
  case (exact_more n path ps seg rm i)
  then show ?case
    using search_descend(2)[OF exact_more(1,2,3,4)] by (simp add: descend_def restPath_def)
next
  case (longer n path ps seg rm i)
  then show ?case
    using search_descend(2)[OF longer(1,2,3,4)] by (simp add: descend_def)
next
  case (param_last n path ps seg pc)
  then show ?case using search_bind(2)[OF param_last(1,2,3,4,5)] by simp
next
  case (param_more n path ps seg rm pc)
  then show ?case using search_bind(2)[OF param_more(1,2,3,4,5)] by simp
next
  case (none n path ps seg rm)
  then show ?case by simp
qed

text \<open>The search from the root binds no parameter exactly when the list of its
  parameter steps is empty.\<close>

lemma param_steps_Nil_iff:
  "param_steps n path = [] \<longleftrightarrow> snd (node_search n path None) = None"
  using steps_empty[of n path None] steps_none[of n path None] by auto

lemma node_search_norm:
  "node_search n (normPath p) ps = node_search n (if p = [] then ''/'' else p) ps"
  using search_unslashed[of p n ps] by (auto simp: normPath_def)

lemma tree_search_fst: "fst (tree_search t q) = fst (node_search (root t) (if q = [] then ''/'' else q) None)"
  by (auto simp: tree_search_def Let_def split: prod.splits option.splits)

lemma tree_search_Some:
  "node_search (root t) (if q = [] then ''/'' else q) None = (Some ro, ps) \<Longrightarrow>
     tree_search t q = (Some ro, ps)"
  by (simp add: tree_search_def)

lemma unslashed_query: "unslashed (if q = [] then ''/'' else q) = unslashed q"
  by (simp add: unslashed_def)

lemma covers_query: "covers p (if q = [] then ''/'' else q) = covers p q"
  by (cases "q = []") (simp_all add: covers.simps[of p "''/''"] covers.simps[of p "[]"])

lemma tree_insert_frame:
  assumes "sibling_disjoint (root T)" "tree_insert T p r = Inr T'"
    "tree_search T q = (Some ro, ps)"
    "ps = None \<or> tree_param_steps T' q = tree_param_steps T q"
  shows "tree_search T' q = (Some ro, ps) \<or>
         (covers (normPath p) q \<and> (ps = None \<longrightarrow> unslashed q = unslashed p) \<and>
          fst (tree_search T' q) = r)"
proof -
  let ?q = "if q = [] then ''/'' else q"
  note i = tree_insert_root[OF assms(2)]
  note s = tree_search_node[OF assms(3)]
  have n: "ps = None \<longleftrightarrow> param_steps (root T) ?q = []"
    using steps_none[of "root T" ?q None] steps_empty[of "root T" ?q None] s by auto
  have h: "param_steps (root T) ?q = [] \<or> param_steps (root T') ?q = param_steps (root T) ?q"
    using assms(4) n by (auto simp: tree_param_steps_def)
  from node_insert_frame_general[OF i assms(1) s h]
  show ?thesis
  proof
    assume "node_search (root T') ?q None = (Some ro, ps)"
    then show ?thesis using tree_search_Some[of T' q ro ps] by simp
  next
    assume "fst (node_search (root T') ?q None) = r \<and> covers (normPath p) ?q \<and>
        (param_steps (root T) ?q = [] \<longrightarrow> unslashed ?q = unslashed (normPath p))"
    then show ?thesis
      using n tree_search_fst[of T' q] covers_query[of "normPath p" q]
        unslashed_query[of q] unslashed_normPath[of p] by simp
  qed
qed


lemma colon_descend:
  assumes "nextSegment (TrimPrefix path ''/'') = (seg, rm)" "CHR '':'' \<notin> set path"
  shows "CHR '':'' \<notin> set (descend seg rm k)" "CHR '':'' \<notin> set (restPath rm)"
  using colon_in_path(2)[OF assms(1)] colon_in_path(3)[OF assms(1), of k] assms(2)
  by (auto simp: descend_def restPath_def)

lemma node_insert_static_search:
  assumes "node_insert n p r = Inr n'" "sibling_disjoint n" "CHR '':'' \<notin> set p"
  shows "node_search n' p ps = (r, ps)"
  using assms
proof (induction arbitrary: ps rule: node_insert_steps_induct)
  case (root n r)
  then show ?case by (simp add: search_root)
next
  case (param n path r seg rm pc')
  then have "CHR '':'' \<in> set seg" by (cases seg) auto
  with colon_in_path(1)[OF param(2)] param(8) show ?case by simp
next
  case (slot n path r seg rm i k X c')
  let ?c = "children n ! i"
  let ?n' = "set_children n ((children n)[i := c'])"
  note o = overlap_facts[OF slot(4)]
  note ch = sd_child[OF slot(9) o(1)]
  have kp: "k \<le> length (prefix ?c)" using slot(5) lcp_le2 by simp
  have pX: "prefix X = take k (prefix ?c)" "nType X = static"
    using slot(6) ch by (auto split: if_splits)
  note f = node_insert_fields[OF slot(7)]
  have c': "nType c' = static" "prefix c' = take k seg"
    using f pX lcp_take[of seg "prefix ?c"] slot(5) by simp_all
  have pl: "length (prefix c') = k" using c'(2) slot(5) lcp_le1[of seg "prefix ?c"] by simp
  have sdX: "sibling_disjoint X"
    using slot(6) ch kp sd_splitChild[of ?c k] by (auto split: if_splits)
  have ne: "\<forall>c\<in>set (children n). prefix c \<noteq> []" using slot(9) by (auto simp: sibling_disjoint_iff[of n])
  have hp: "HasPrefix seg (prefix c')" using c'(2) HasPrefix_take by simp
  have fm: "findMatch seg (children ?n') = Some i"
    using findMatch_update[OF slot(4) ne c'(1) hp] by simp
  have p: "path \<noteq> []" using segment_path_nonempty[OF slot(2) overlap_seg[OF slot(4)]] .
  have "node_search ?n' path ps = node_search c' (descend seg rm k) ps"
    using search_descend(1)[OF slot(1) p slot(2) fm, of ps] o(1) pl by simp
  with slot(8)[OF sdX colon_descend(1)[OF slot(2,10)]] show ?case by simp
next
  case (new n path r seg rm c cs c')
  let ?n' = "set_children n (children n @ [c'])"
  note f = node_insert_fields[OF new(6)]
  have ne: "\<forall>c\<in>set (children n). prefix c \<noteq> []" using new(8) by (auto simp: sibling_disjoint_iff[of n])
  have fm: "findMatch seg (children ?n') = Some (length (children n))"
    using findMatch_append[OF findMatch_skip[OF new(4) ne], of c'] f by (simp add: HasPrefix_refl)
  have p: "path \<noteq> []" using segment_path_nonempty[OF new(2)] new(5) by simp
  have "node_search ?n' path ps = node_search c' (restPath rm) ps"
    using search_descend(1)[OF new(1) p new(2) fm, of ps] f by (simp add: descend_def)
  moreover have "sibling_disjoint (Node static c seg [] None [] None)" by simp
  ultimately show ?case using new(7) colon_descend(2)[OF new(2,9)] by simp
qed

lemma inserts_keep_static:
  "inserts T1 ys = Inr T \<Longrightarrow> sibling_disjoint (root T1) \<Longrightarrow>
   tree_search T1 q = (Some ro, None) \<Longrightarrow>
   \<forall>(p', r') \<in> set ys. unslashed p' \<noteq> unslashed q \<Longrightarrow> tree_search T q = (Some ro, None)"
proof (induction ys arbitrary: T1)
  case Nil then show ?case by simp
next
  case (Cons a ys)
  obtain p r where a: "a = (p, r)" by force
  with Cons.prems obtain T2 where t: "tree_insert T1 p r = Inr T2" "inserts T2 ys = Inr T"
    by (auto split: sum.splits)
  have sd: "sibling_disjoint (root T2)"
    using node_insert_sibling_disjoint[OF tree_insert_root[OF t(1)] Cons.prems(2)] .
  have "unslashed q \<noteq> unslashed p" using Cons.prems(4) a by auto
  then have "tree_search T2 q = (Some ro, None)"
    using tree_insert_frame[OF Cons.prems(2) t(1) Cons.prems(3)] by auto
  with Cons.IH[OF t(2) sd] Cons.prems(4) show ?case by simp
qed


subsection \<open>Static routes before parameter routes\<close>

text \<open>
  C2. The claim is that in every tree in which a static pattern and a parameterized pattern
  both match a path, the search returns the route of the static pattern. The code misses
  it where two static patterns differ only in their slashes. Below a child whose prefix is
  a proper prefix of the segment, \<^verbatim>\<open>node.insert\<close> continues with
  \<^verbatim>\<open>"/" + newSegment + remaining\<close>, a path that no longer tells the rest of a segment
  from a new segment. With \<^verbatim>\<open>/a/b\<close> (route 1) and \<^verbatim>\<open>/:x/b\<close> (route 3) registered,
  the insertion of \<^verbatim>\<open>/ab\<close> (route 2) goes down the child \<^verbatim>\<open>a\<close> with \<^verbatim>\<open>/b\<close> and
  overwrites the route of \<^verbatim>\<open>/a/b\<close>: the search for \<^verbatim>\<open>/a/b\<close>, which the static
  \<^verbatim>\<open>/a/b\<close> and the parameterized \<^verbatim>\<open>/:x/b\<close> match, returns route 2, the route of
  \<^verbatim>\<open>/ab\<close>. A colon inside a segment hides a static pattern altogether: with \<^verbatim>\<open>/a:b\<close>,
  \<^verbatim>\<open>/ax\<close>, \<^verbatim>\<open>/a:bc\<close> and \<^verbatim>\<open>/:p\<close> registered, the search for \<^verbatim>\<open>/a:bc\<close>, which
  the static \<^verbatim>\<open>/a:bc\<close> and the parameterized \<^verbatim>\<open>/:p\<close> match, returns no route. The
  evaluation of the code on the two inputs:
\<close>

theorem static_priority_fails:
  "(case inserts (newTree :: nat tree)
           [(''/a/b'', Some 1), (''/:x/b'', Some 3), (''/ab'', Some 2)] of
      Inl e \<Rightarrow> False
    | Inr t \<Rightarrow> tree_search t ''/a/b'' = (Some 2, None)) \<and>
   (case inserts (newTree :: nat tree)
           [(''/a:b'', Some 0), (''/ax'', Some 1), (''/a:bc'', Some 2), (''/:p'', Some 3)] of
      Inl e \<Rightarrow> False
    | Inr t \<Rightarrow> tree_search t ''/a:bc'' = (None, None))"
  by (simp add: eval_defs)

text \<open>
  Away from these two defects the static route is selected, whatever parameterized
  patterns the tree holds. In a tree built from the empty tree by insertions, a pattern
  \<open>p\<close> without a colon that was registered with the route \<open>r\<close> is found by the search
  for \<open>p\<close>, with \<open>r\<close> and no parameter, whatever was registered before it and whatever
  was registered after it, as long as no later pattern is \<open>p\<close> up to slashes (\<open>p\<close>
  registered again, or a pattern that differs from \<open>p\<close> in its slashes only). No
  parameterized pattern is \<open>p\<close> up to slashes, so none of them takes the path of \<open>p\<close>
  away from \<open>p\<close>.
\<close>

theorem static_route_selected:
  assumes "inserts newTree xs = Inr T0" "tree_insert T0 p (Some r) = Inr T1"
    "inserts T1 ys = Inr T" "CHR '':'' \<notin> set p"
    "\<forall>(p', r') \<in> set ys. unslashed p' \<noteq> unslashed p"
  shows "tree_search T p = (Some r, None)"
proof -
  have sd0: "sibling_disjoint (root T0)"
    using inserts_sibling_disjoint[OF assms(1)] by (simp add: newTree_def)
  note i = tree_insert_root[OF assms(2)]
  have sd1: "sibling_disjoint (root T1)" using node_insert_sibling_disjoint[OF i sd0] .
  have "CHR '':'' \<notin> set (normPath p)" using assms(4) colon_normPath by simp
  then have "node_search (root T1) (normPath p) None = (Some r, None)"
    using node_insert_static_search[OF i sd0] by simp
  then have "tree_search T1 p = (Some r, None)"
    using node_search_norm[of "root T1" p None] by (simp add: tree_search_def)
  from inserts_keep_static[OF assms(3) sd1 this assms(5)] show ?thesis .
qed

theorem static_route_selected_witness:
  "\<exists>T0 T1 T. inserts newTree [(''/users/:id'', Some (1::nat))] = Inr T0 \<and>
     tree_insert T0 ''/users/me'' (Some 2) = Inr T1 \<and>
     inserts T1 [(''/users/max'', Some 3), (''/:x/me'', Some 4)] = Inr T \<and>
     tree_search T ''/users/me'' = (Some 2, None)"
proof -
  obtain T0 where T0: "inserts newTree [(''/users/:id'', Some (1::nat))] = Inr T0"
    by (simp add: eval_defs)
  obtain T1 where T1: "tree_insert T0 ''/users/me'' (Some 2) = Inr T1"
    using T0 by (auto simp add: eval_defs)
  obtain T where T: "inserts T1 [(''/users/max'', Some 3), (''/:x/me'', Some 4)] = Inr T"
    using T0 T1 by (auto simp add: eval_defs splitChild_def)
  have c: "CHR '':'' \<notin> set ''/users/me''" by simp
  have u: "\<forall>(p', r') \<in> set [(''/users/max'', Some (3::nat)), (''/:x/me'', Some 4)].
             unslashed p' \<noteq> unslashed ''/users/me''"
    by (simp add: unslashed_def)
  from static_route_selected[OF T0 T1 T c u] T0 T1 T show ?thesis by blast
qed

subsection \<open>Insertion updates the tree in place\<close>




text \<open>
  The covered paths are more than the pattern's own path by design: a pattern with a
  parameter segment stands for every path it matches, and registering it again replaces
  the route of all of them. After \<^verbatim>\<open>/users/:id\<close> with route 1, the second
  registration of \<^verbatim>\<open>/users/:id\<close> with route 2 changes what \<^verbatim>\<open>/users/42\<close> resolves to.
\<close>

lemma insert_replaces_parameter_route:
  "(case inserts (newTree :: nat tree) [(''/users/:id'', Some 1)] of
      Inl e \<Rightarrow> False
    | Inr T1 \<Rightarrow>
        search_at [0 \<mapsto> T1] 0 ''/users/42'' = Inr (Some 1, Some [''id'' \<mapsto> ''42'']) \<and>
        (case insert_at [0 \<mapsto> T1] 0 ''/users/:id'' (Some 2) of
           Inl e \<Rightarrow> False
         | Inr h' \<Rightarrow> search_at h' 0 ''/users/42'' = Inr (Some 2, Some [''id'' \<mapsto> ''42''])))"
  by (simp add: insert_at_def search_at_def eval_defs)

text \<open>
  Among the covered paths are also those that differ from the pattern in their slashes
  only, which the code joins: after \<^verbatim>\<open>/ax\<close>, the insertion of \<^verbatim>\<open>/a/x\<close> takes the
  path \<^verbatim>\<open>/ax\<close> over.
\<close>

lemma insert_joins_segments:
  "(case inserts (newTree :: nat tree) [(''/ax'', Some 1)] of
      Inl e \<Rightarrow> False
    | Inr T1 \<Rightarrow>
        search_at [0 \<mapsto> T1] 0 ''/ax'' = Inr (Some 1, None) \<and>
        (case insert_at [0 \<mapsto> T1] 0 ''/a/x'' (Some 3) of
           Inl e \<Rightarrow> False
         | Inr h' \<Rightarrow> search_at h' 0 ''/ax'' = Inr (Some 3, None)))"
  by (simp add: insert_at_def search_at_def eval_defs splitChild_def)

text \<open>
  The statement says nothing of a path that bound a parameter where the insertion puts a
  static node in front of the parameter child: the search then binds at other places, and
  here the code does lose paths. After \<^verbatim>\<open>/abc\<close> and \<^verbatim>\<open>/:id\<close> the path \<^verbatim>\<open>/ab\<close>
  resolves to the route of \<^verbatim>\<open>/:id\<close>; the insertion of \<^verbatim>\<open>/abd\<close> splits the child
  \<^verbatim>\<open>abc\<close> at \<^verbatim>\<open>ab\<close>, the search for \<^verbatim>\<open>/ab\<close> stops at the new node and does not
  fall back to the parameter child.
\<close>

lemma insert_shadows_parameter:
  "(case inserts (newTree :: nat tree) [(''/abc'', Some 1), (''/:id'', Some 2)] of
      Inl e \<Rightarrow> False
    | Inr T1 \<Rightarrow>
        search_at [0 \<mapsto> T1] 0 ''/ab'' = Inr (Some 2, Some [''id'' \<mapsto> ''ab'']) \<and>
        (case insert_at [0 \<mapsto> T1] 0 ''/abd'' (Some 3) of
           Inl e \<Rightarrow> False
         | Inr h' \<Rightarrow> search_at h' 0 ''/ab'' = Inr (None, None)))"
  by (simp add: insert_at_def search_at_def eval_defs splitChild_def)

end
